theory Spec2Isabelle
  imports Main "HOL-Library.List_Lexorder" "HOL-Library.Char_ord" "HOL-Library.AList"
    "HOL-Library.Multiset"
begin

section \<open>The run view command of pkg/cmd/run/view/view.go\<close>

text \<open>
  The development embeds the command \<open>gh run view\<close>: the argument handling of
  \<open>NewCmdView\<close>, the body of \<open>runView\<close>, the log archive reader \<open>readRunLog\<close> and the
  renderer \<open>displayRunLog\<close>. Go strings are byte strings and are modelled as
  \<^typ>\<open>string\<close>; the order on them is the bytewise lexicographic one, as Go compares
  strings. Paths follow the Unix rules of \<open>path/filepath\<close> (separator \<open>/\<close>, no volume
  names), and \<open>int\<close> has 64 bits.
\<close>

subsection \<open>Errors\<close>

text \<open>
  An error value of the program: \<open>cmdutil.FlagError\<close> wrapping a message,
  \<open>cmdutil.SilentError\<close>, an error made by \<open>errors.New\<close> or by \<open>fmt.Errorf\<close> without
  \<open>%w\<close>, an error wrapped by \<open>fmt.Errorf("...: %w", err)\<close>, an error handed back
  by a collaborator (the API client, the prompt, the zip reader), and a run-time
  panic, which ends the process as an error does.
\<close>

datatype error =
    FlagError string
  | SilentError
  | ErrorNew string
  | Wrap string error
  | External string
  | Panic string

definition InvalidStepFilename :: error where
  "InvalidStepFilename = ErrorNew ''invalid step log filename''"

subsection \<open>Library functions used by the reader\<close>

definition IsPathSeparator :: "char \<Rightarrow> bool" where
  "IsPathSeparator c = (c = CHR ''/'')"

text \<open>
  \<open>filepath.Split\<close>: the index runs down from the end while the byte is not a
  separator; the path is cut right after the final separator.
\<close>

definition Split :: "string \<Rightarrow> string \<times> string" where
  "Split path =
     (let file = rev (takeWhile (\<lambda>c. \<not> IsPathSeparator c) (rev path))
      in (take (length path - length file) path, file))"

text \<open>
  \<open>filepath.Ext\<close>: the suffix beginning at the final dot of the final path element,
  empty when that element has no dot. \<open>Ext_scan\<close> is the loop, reading the path from
  its end; the second argument is what has been passed over.
\<close>

fun Ext_scan :: "string \<Rightarrow> string \<Rightarrow> string" where
  "Ext_scan [] passed = []"
| "Ext_scan (c # r) passed =
     (if IsPathSeparator c then []
      else if c = CHR ''.'' then c # passed
      else Ext_scan r (c # passed))"

definition Ext :: "string \<Rightarrow> string" where
  "Ext path = Ext_scan (rev path) []"

text \<open>
  \<open>strings.Split(s, sep)\<close> for a separator of one byte: all the pieces between
  the separators; a string without the separator gives the one piece \<open>s\<close>.
\<close>

fun strings_Split :: "string \<Rightarrow> char \<Rightarrow> string list" where
  "strings_Split [] sep = [[]]"
| "strings_Split (c # s) sep =
     (if c = sep then [] # strings_Split s sep
      else (case strings_Split s sep of
              [] \<Rightarrow> [[c]]
            | p # ps \<Rightarrow> (c # p) # ps))"

definition HasSuffix :: "string \<Rightarrow> string \<Rightarrow> bool" where
  "HasSuffix s suffix =
     (length suffix \<le> length s \<and> drop (length s - length suffix) s = suffix)"

definition TrimSuffix :: "string \<Rightarrow> string \<Rightarrow> string" where
  "TrimSuffix s suffix =
     (if HasSuffix s suffix then take (length s - length suffix) s else s)"

text \<open>
  \<open>strconv.Atoi\<close>: an optional sign, then at least one decimal digit and nothing
  else; the value must fit the 64-bit \<open>int\<close>. \<open>None\<close> is the error return.
\<close>

definition digitVal :: "char \<Rightarrow> int option" where
  "digitVal ch =
     (let n = (of_char ch :: int) in if 48 \<le> n \<and> n \<le> 57 then Some (n - 48) else None)"

fun parseDigits :: "int \<Rightarrow> string \<Rightarrow> int option" where
  "parseDigits n [] = Some n"
| "parseDigits n (ch # s) =
     (case digitVal ch of None \<Rightarrow> None | Some d \<Rightarrow> parseDigits (n * 10 + d) s)"

definition Atoi :: "string \<Rightarrow> int option" where
  "Atoi s0 =
     (case s0 of
        [] \<Rightarrow> None
      | c # r \<Rightarrow>
          (let s = (if c = CHR ''-'' \<or> c = CHR ''+'' then r else s0) in
           if s = [] then None
           else (case parseDigits 0 s of
                   None \<Rightarrow> None
                 | Some n \<Rightarrow>
                     (let v = (if c = CHR ''-'' then - n else n) in
                      if - (2 ^ 63) \<le> v \<and> v < 2 ^ 63 then Some v else None))))"

subsection \<open>The log archive\<close>

record step =
  step_order :: int
  step_name :: string
  step_logs :: string

record job =
  job_name :: string
  job_steps :: "step list"

text \<open>
  \<open>runLog\<close> is a Go map from job name to job. It is kept as an association list
  with distinct keys, in the order the keys were inserted; the program reads the
  map by key only (the renderer sorts the keys first).
\<close>

type_synonym runLog = "(string \<times> job) list"

text \<open>
  An entry of the zip archive: its name and what \<open>readZipFile\<close> returns for it
  (the decompressed payload, or the error of opening or reading it).
\<close>

record zipFile =
  Name :: string
  readZipFile :: "error + string"

text \<open>
  The stream handed to \<open>readRunLog\<close>: reading it may fail, \<open>zip.NewReader\<close> may
  refuse its bytes, or it holds the entries of an archive, in archive order.
\<close>

datatype ReadCloser =
    ReadAllFails error
  | NewReaderFails error
  | ZipArchive "zipFile list"

text \<open>The insertion at the end of the loop body: a new job, or one more step of a known job.\<close>

definition addStep :: "runLog \<Rightarrow> string \<Rightarrow> step \<Rightarrow> runLog" where
  "addStep rl jobName st =
     (case map_of rl jobName of
        None \<Rightarrow> rl @ [(jobName, \<lparr>job_name = jobName, job_steps = [st]\<rparr>)]
      | Some j \<Rightarrow> AList.update jobName (j\<lparr>job_steps := job_steps j @ [st]\<rparr>) rl)"

text \<open>
  The body of the loop over \<open>zipReader.File\<close>: \<open>Inl\<close> is the error of an early
  return, \<open>Inr\<close> the map after the entry (unchanged for a skipped entry).
\<close>

definition readRunLog_entry :: "runLog \<Rightarrow> zipFile \<Rightarrow> error + runLog" where
  "readRunLog_entry rl zf =
     (let (dir, file) = Split (Name zf);
          ext = Ext (Name zf)
      in if dir \<noteq> [] \<and> ext = ''.txt'' then
           (let split = strings_Split file CHR ''_'' in
            if length split \<noteq> 2 then Inl InvalidStepFilename
            else
              (let jobName = TrimSuffix dir ''/'';
                   stepName = TrimSuffix (split ! 1) ''.txt''
               in case Atoi (split ! 0) of
                    None \<Rightarrow> Inl InvalidStepFilename
                  | Some stepOrder \<Rightarrow>
                      (case readZipFile zf of
                         Inl err \<Rightarrow> Inl err
                       | Inr stepLogs \<Rightarrow>
                           Inr (addStep rl jobName
                                  \<lparr>step_order = stepOrder, step_name = stepName,
                                   step_logs = stepLogs\<rparr>))))
         else Inr rl)"

text \<open>
  The loop. Every return of \<open>readRunLog\<close> hands back the map \<open>rl\<close> made at its
  start, with what the loop has put into it so far, next to the error (\<open>None\<close> for
  \<open>nil\<close>).
\<close>

fun readRunLog_loop :: "runLog \<Rightarrow> zipFile list \<Rightarrow> runLog \<times> error option" where
  "readRunLog_loop rl [] = (rl, None)"
| "readRunLog_loop rl (zf # zfs) =
     (case readRunLog_entry rl zf of
        Inl err \<Rightarrow> (rl, Some err)
      | Inr rl' \<Rightarrow> readRunLog_loop rl' zfs)"

fun readRunLog :: "ReadCloser \<Rightarrow> runLog \<times> error option" where
  "readRunLog (ReadAllFails err) = ([], Some err)"
| "readRunLog (NewReaderFails err) = ([], Some err)"
| "readRunLog (ZipArchive files) = readRunLog_loop [] files"

subsection \<open>Rendering the archive\<close>

text \<open>
  \<open>bufio.Scanner\<close> with its default split function \<open>ScanLines\<close> and its default
  buffer: a token is the text up to the next newline (or up to the end of the input,
  when that text is not empty), without one trailing carriage return. The buffer
  grows to \<open>MaxScanTokenSize\<close> bytes at most; when it is full and holds no newline,
  \<open>Scan\<close> gives up and returns false, as it does at the end of the input.
  \<open>Scan\<close> here is one call on the unread input: the token and what is left to read.
\<close>

definition MaxScanTokenSize :: nat where
  "MaxScanTokenSize = 64 * 1024"

definition dropCR :: "string \<Rightarrow> string" where
  "dropCR data = (if data \<noteq> [] \<and> last data = CHR 0x0D then butlast data else data)"

definition Scan :: "string \<Rightarrow> (string \<times> string) option" where
  "Scan data =
     (if data = [] then None
      else (let line = takeWhile (\<lambda>c. c \<noteq> CHR 0x0A) data in
            if MaxScanTokenSize \<le> length line then None
            else Some (dropCR line, drop (Suc (length line)) data)))"

text \<open>The loop \<open>for scanner.Scan() { ... scanner.Text() ... }\<close>: the texts it sees.\<close>

function scanLines :: "string \<Rightarrow> string list" where
  "scanLines data =
     (case Scan data of
        None \<Rightarrow> []
      | Some (text, rest) \<Rightarrow> text # scanLines rest)"
  by pat_completeness auto
termination
  by (relation "measure length") (auto simp: Scan_def Let_def split: if_splits)

declare scanLines.simps [simp del]

text \<open>
  \<open>sort.Slice\<close> is taken as a parameter of the renderer: a function from the
  \<open>less\<close> argument and the slice to the slice after the call. The library documents
  that it sorts and that it is not stable; \<open>sort_Slice_contract\<close> is what it promises
  for the \<open>less\<close> of \<open>displayRunLog\<close>.
\<close>

type_synonym sort_Slice = "(step \<Rightarrow> step \<Rightarrow> bool) \<Rightarrow> step list \<Rightarrow> step list"

definition stepLess :: "step \<Rightarrow> step \<Rightarrow> bool" where
  "stepLess a b = (step_order a < step_order b)"

definition sort_Slice_contract :: "sort_Slice \<Rightarrow> bool" where
  "sort_Slice_contract srt =
     (\<forall>xs. mset (srt stepLess xs) = mset xs \<and>
           sorted_wrt (\<lambda>a b. \<not> stepLess b a) (srt stepLess xs))"

text \<open>
  The two outer loops of \<open>displayRunLog\<close>: the job names sorted by \<open>sort.Strings\<close>,
  and for each the job's steps after \<open>sort.Slice\<close>. \<open>visited\<close> is the sequence of
  (job, step) in the order in which the innermost loop prints them.
\<close>

definition jobNames :: "runLog \<Rightarrow> string list" where
  "jobNames rl = sort (map fst rl)"

definition visited :: "sort_Slice \<Rightarrow> runLog \<Rightarrow> (job \<times> step) list" where
  "visited srt rl =
     concat (map (\<lambda>name. case map_of rl name of
                            None \<Rightarrow> []
                          | Some j \<Rightarrow> map (Pair j) (srt stepLess (job_steps j)))
                 (jobNames rl))"

text \<open>The lines printed for one step: \<open>prefix\<close>, the scanned text and a newline.\<close>

definition prefix :: "job \<Rightarrow> step \<Rightarrow> string" where
  "prefix j st = job_name j @ [CHR 0x09] @ step_name st @ [CHR 0x09]"

definition stepLines :: "job \<times> step \<Rightarrow> string list" where
  "stepLines js =
     map (\<lambda>text. prefix (fst js) (snd js) @ text @ [CHR 0x0A]) (scanLines (step_logs (snd js)))"

definition renderRunLog :: "sort_Slice \<Rightarrow> runLog \<Rightarrow> string list" where
  "renderRunLog srt rl = concat (map stepLines (visited srt rl))"

subsection \<open>Runs, jobs and the collaborators\<close>

text \<open>
  Modelled from the spec: the types \<open>shared.Run\<close>, \<open>shared.Job\<close>,
  \<open>shared.Annotation\<close> and \<open>shared.Artifact\<close> are declared in package \<open>shared\<close>,
  outside this file. The spec's data model gives a run an identifier, a status
  (Queued, InProgress, Completed), a conclusion (Success, Failure, Cancelled, ...)
  and a URL, a job the same and the identifier of its run and a name, an annotation
  a message and a level, an artifact a name and an expired flag.
\<close>

datatype status = Queued | InProgress | Completed

datatype conclusion = Success | Failure | Cancelled | OtherConclusion string

record Run =
  Run_ID :: int
  Run_Status :: status
  Run_Conclusion :: conclusion
  Run_URL :: string

record Job =
  Job_ID :: int
  Job_RunID :: int
  Job_Name :: string
  Job_Status :: status
  Job_Conclusion :: conclusion
  Job_URL :: string

record Annotation =
  Message :: string
  Level :: string

record Artifact =
  Artifact_Name :: string
  Expired :: bool

text \<open>\<open>fmt.Sprintf("%d", n)\<close> and \<open>strconv.Itoa\<close>: the decimal digits, with a minus sign below zero.\<close>

function natDigits :: "nat \<Rightarrow> string" where
  "natDigits n =
     (if n < 10 then [''0123456789'' ! n]
      else natDigits (n div 10) @ [''0123456789'' ! (n mod 10)])"
  by pat_completeness auto
termination
  by (relation "measure id") auto

declare natDigits.simps [simp del]

definition Itoa :: "int \<Rightarrow> string" where
  "Itoa n = (if n < 0 then CHR ''-'' # natDigits (nat (- n)) else natDigits (nat n))"

text \<open>
  What the command sees of the world outside it: the terminal, the factory
  functions, the API client, the prompts, the browser, the log downloads and the
  pager. Each field is the answer the collaborator gives; \<open>Inl\<close> (or \<open>Some\<close> for a
  call that returns only an error) is a failure. \<open>SurveyAskOne\<close> is the prompt of
  \<open>promptForJob\<close>: the index the user selects among the given number of options.
  \<open>IsFailureState\<close> is the predicate of package \<open>shared\<close> on conclusions, and
  \<open>sort_Slice\<close> the library's sorting routine.
\<close>

record collaborators =
  CanPrompt :: bool
  IsStdoutTTY :: bool
  HttpClient :: "error option"
  BaseRepo :: "error option"
  getJob :: "string \<Rightarrow> error + Job"
  GetRuns :: "nat \<Rightarrow> error + Run list"
  PromptForRun :: "Run list \<Rightarrow> error + string"
  GetRun :: "string \<Rightarrow> error + Run"
  GetJobs :: "Run \<Rightarrow> error + Job list"
  SurveyAskOne :: "nat \<Rightarrow> error + nat"
  Browse :: "string \<Rightarrow> error option"
  getJobLog :: "int \<Rightarrow> error + string"
  Copy :: "string \<Rightarrow> error option"
  getRunLog :: "int \<Rightarrow> error + ReadCloser"
  StartPager :: "error option"
  PullRequestForRun :: "Run \<Rightarrow> error + int"
  ListArtifacts :: "string \<Rightarrow> error + Artifact list"
  GetAnnotations :: "Job \<Rightarrow> error + Annotation list"
  IsFailureState :: "conclusion \<Rightarrow> bool"
  sort_Slice :: sort_Slice

text \<open>
  What the command does to the world, in order: the calls of the collaborators
  and what it writes. The report of the summary path is recorded by its data (the
  text is made by the renderers of package \<open>shared\<close>): the run, the pull request
  suffix, the jobs, the annotations and the artifacts. The progress indicator is
  left out.
\<close>

datatype event =
    Call_getJob string
  | Call_GetRuns nat
  | Call_PromptForRun "Run list"
  | Call_GetRun string
  | Call_GetJobs Run
  | Call_promptForJob "Job list"
  | Call_Browse string
  | Call_getJobLog int
  | Call_getRunLog int
  | Call_StartPager
  | Call_PullRequestForRun Run
  | Call_ListArtifacts string
  | Call_GetAnnotations Job
  | ErrOut_Warning
  | Out_Opening string
  | Out_Copy string
  | Out_Line string
  | Out_WorkflowFileIssue Run string
  | Out_Report Run string "Job list" "Annotation list" "Artifact list"

type_synonym outcome = "event list \<times> error option"

subsection \<open>The command\<close>

record ViewOptions =
  RunID :: string
  JobID :: string
  Verbose :: bool
  ExitStatus :: bool
  Log :: bool
  Web :: bool
  Prompt :: bool

text \<open>
  Sequencing: the events of the first part, then, unless it failed, those of the
  second. \<open>andThen\<close> continues with a part that yields a value, \<open>andFinally\<close> with
  one that ends the command.
\<close>

definition andThen ::
  "event list \<times> (error + 'a) \<Rightarrow> ('a \<Rightarrow> event list \<times> (error + 'b)) \<Rightarrow> event list \<times> (error + 'b)" where
  "andThen m f =
     (case m of
        (tr, Inl err) \<Rightarrow> (tr, Inl err)
      | (tr, Inr x) \<Rightarrow> (case f x of (tr', r) \<Rightarrow> (tr @ tr', r)))"

definition andFinally :: "event list \<times> (error + 'a) \<Rightarrow> ('a \<Rightarrow> outcome) \<Rightarrow> outcome" where
  "andFinally m f =
     (case m of
        (tr, Inl err) \<Rightarrow> (tr, Some err)
      | (tr, Inr x) \<Rightarrow> (case f x of (tr', r) \<Rightarrow> (tr @ tr', r)))"

text \<open>
  \<open>promptForJob\<close>: the first option is "View all jobs in this run", the others
  are the jobs; option 0 gives \<open>nil\<close>, option \<open>n\<close> the job at index \<open>n - 1\<close> (an index
  outside the slice panics).
\<close>

definition promptForJob :: "collaborators \<Rightarrow> Job list \<Rightarrow> error + Job option" where
  "promptForJob w jobs =
     (case SurveyAskOne w (Suc (length jobs)) of
        Inl err \<Rightarrow> Inl err
      | Inr selected \<Rightarrow>
          if selected > 0 then
            (if selected - 1 < length jobs then Inr (Some (jobs ! (selected - 1)))
             else Inl (Panic ''index out of range''))
          else Inr None)"

text \<open>\<open>displayRunLog\<close>: the pager is started, then every line is written.\<close>

definition displayRunLog :: "collaborators \<Rightarrow> runLog \<Rightarrow> outcome" where
  "displayRunLog w rl =
     (case StartPager w of
        Some err \<Rightarrow> ([Call_StartPager], Some err)
      | None \<Rightarrow> (Call_StartPager # map Out_Line (renderRunLog (sort_Slice w) rl), None))"

text \<open>
  The first part of \<open>runView\<close> (up to the test of \<open>opts.Web\<close>), in four steps:
  the job named by \<open>--job\<close> and the run id it gives; the prompt for a run; the run;
  the prompt for a job. Its value is \<open>run\<close>, \<open>selectedJob\<close> and \<open>jobs\<close>.
\<close>

definition fetchSelectedJob ::
  "ViewOptions \<Rightarrow> collaborators \<Rightarrow> event list \<times> (error + string \<times> Job option)" where
  "fetchSelectedJob opts w =
     (if JobID opts \<noteq> [] then
        (case getJob w (JobID opts) of
           Inl err \<Rightarrow> ([Call_getJob (JobID opts)], Inl (Wrap ''failed to get job'' err))
         | Inr selectedJob \<Rightarrow>
             ([Call_getJob (JobID opts)], Inr (Itoa (Job_RunID selectedJob), Some selectedJob)))
      else ([], Inr (RunID opts, None)))"

definition promptRun ::
  "ViewOptions \<Rightarrow> collaborators \<Rightarrow> string \<Rightarrow> event list \<times> (error + string)" where
  "promptRun opts w runID =
     (if Prompt opts then
        (case GetRuns w 10 of
           Inl err \<Rightarrow> ([Call_GetRuns 10], Inl (Wrap ''failed to get runs'' err))
         | Inr runs \<Rightarrow>
             (case PromptForRun w runs of
                Inl err \<Rightarrow> ([Call_GetRuns 10, Call_PromptForRun runs], Inl err)
              | Inr selected \<Rightarrow> ([Call_GetRuns 10, Call_PromptForRun runs], Inr selected)))
      else ([], Inr runID))"

definition fetchRun :: "collaborators \<Rightarrow> string \<Rightarrow> event list \<times> (error + Run)" where
  "fetchRun w runID =
     (case GetRun w runID of
        Inl err \<Rightarrow> ([Call_GetRun runID], Inl (Wrap ''failed to get run'' err))
      | Inr run \<Rightarrow> ([Call_GetRun runID], Inr run))"

definition promptJob ::
  "ViewOptions \<Rightarrow> collaborators \<Rightarrow> Run \<Rightarrow> Job option \<Rightarrow>
     event list \<times> (error + Job option \<times> Job list)" where
  "promptJob opts w run selectedJob =
     (if Prompt opts then
        (case GetJobs w run of
           Inl err \<Rightarrow> ([Call_GetJobs run], Inl err)
         | Inr jobs \<Rightarrow>
             if length jobs > 1 then
               (case promptForJob w jobs of
                  Inl err \<Rightarrow> ([Call_GetJobs run, Call_promptForJob jobs], Inl err)
                | Inr selected \<Rightarrow> ([Call_GetJobs run, Call_promptForJob jobs], Inr (selected, jobs)))
             else ([Call_GetJobs run], Inr (selectedJob, jobs)))
      else ([], Inr (selectedJob, [])))"

definition resolve ::
  "ViewOptions \<Rightarrow> collaborators \<Rightarrow> event list \<times> (error + Run \<times> Job option \<times> Job list)" where
  "resolve opts w =
     (case HttpClient w of
        Some err \<Rightarrow> ([], Inl (Wrap ''failed to create http client'' err))
      | None \<Rightarrow>
          (case BaseRepo w of
             Some err \<Rightarrow> ([], Inl (Wrap ''failed to determine base repo'' err))
           | None \<Rightarrow>
               andThen (fetchSelectedJob opts w) (\<lambda>(runID, selectedJob).
               andThen (promptRun opts w runID) (\<lambda>runID.
               andThen (fetchRun w runID) (\<lambda>run.
               andThen (promptJob opts w run selectedJob) (\<lambda>(selectedJob, jobs).
                 ([], Inr (run, selectedJob, jobs))))))))"

text \<open>The four ways \<open>runView\<close> ends. First \<open>--web\<close>: the URL goes to the browser.\<close>

definition viewWeb :: "collaborators \<Rightarrow> Run \<Rightarrow> Job option \<Rightarrow> outcome" where
  "viewWeb w run selectedJob =
     (let url = (case selectedJob of
                   None \<Rightarrow> Run_URL run
                 | Some j \<Rightarrow> Job_URL j @ ''?check_suite_focus=true'')
      in ((if IsStdoutTTY w then [Out_Opening url] else []) @ [Call_Browse url], Browse w url))"

text \<open>
  \<open>--log\<close> with a selected job: the job's log is copied to the output as it is.
  \<open>Copy\<close> is \<open>io.Copy\<close> on the downloaded text.
\<close>

definition viewJobLog :: "ViewOptions \<Rightarrow> collaborators \<Rightarrow> Job \<Rightarrow> outcome" where
  "viewJobLog opts w selectedJob =
     (if Job_Status selectedJob \<noteq> Completed then
        ([], Some (ErrorNew (''job '' @ Itoa (Job_ID selectedJob) @
            '' is still in progress; logs will be available when it is complete'')))
      else
        (case getJobLog w (Job_ID selectedJob) of
           Inl err \<Rightarrow> ([Call_getJobLog (Job_ID selectedJob)], Some err)
         | Inr r \<Rightarrow>
             (case StartPager w of
                Some err \<Rightarrow> ([Call_getJobLog (Job_ID selectedJob), Call_StartPager], Some err)
              | None \<Rightarrow>
                  (case Copy w r of
                     Some err \<Rightarrow>
                       ([Call_getJobLog (Job_ID selectedJob), Call_StartPager],
                        Some (Wrap ''failed to read log'' err))
                   | None \<Rightarrow>
                       ([Call_getJobLog (Job_ID selectedJob), Call_StartPager, Out_Copy r],
                        if ExitStatus opts \<and> IsFailureState w (Job_Conclusion selectedJob)
                        then Some SilentError else None)))))"

text \<open>\<open>--log\<close> without a selected job: the archive of the run is read and rendered.\<close>

definition viewRunLog :: "collaborators \<Rightarrow> Run \<Rightarrow> outcome" where
  "viewRunLog w run =
     (if Run_Status run \<noteq> Completed then
        ([], Some (ErrorNew (''run '' @ Itoa (Run_ID run) @
            '' is still in progress; logs will be available when it is complete'')))
      else
        (case getRunLog w (Run_ID run) of
           Inl err \<Rightarrow> ([Call_getRunLog (Run_ID run)], Some (Wrap ''failed to get run log'' err))
         | Inr runLogZip \<Rightarrow>
             (case readRunLog runLogZip of
                (runLog, Some err) \<Rightarrow> ([Call_getRunLog (Run_ID run)], Some err)
              | (runLog, None) \<Rightarrow>
                  (case displayRunLog w runLog of
                     (tr, r) \<Rightarrow> (Call_getRunLog (Run_ID run) # tr, r)))))"

text \<open>
  The summary. The jobs to show, the pull request suffix, the artifacts, the
  annotations (the loop stops at the first job whose annotations cannot be
  fetched), then the report and the exit status.
\<close>

definition reportJobs ::
  "collaborators \<Rightarrow> Run \<Rightarrow> Job option \<Rightarrow> Job list \<Rightarrow> event list \<times> (error + Job list)" where
  "reportJobs w run selectedJob jobs =
     (case selectedJob of
        None \<Rightarrow>
          if jobs = [] then
            (case GetJobs w run of
               Inl err \<Rightarrow> ([Call_GetJobs run], Inl (Wrap ''failed to get jobs'' err))
             | Inr jobs' \<Rightarrow> ([Call_GetJobs run], Inr jobs'))
          else ([], Inr jobs)
      | Some j \<Rightarrow> ([], Inr [j]))"

definition reportPR :: "collaborators \<Rightarrow> Run \<Rightarrow> event list \<times> (error + string)" where
  "reportPR w run =
     ([Call_PullRequestForRun run],
      Inr (case PullRequestForRun w run of
             Inl err \<Rightarrow> []
           | Inr number \<Rightarrow> '' #'' @ Itoa number))"

definition reportArtifacts ::
  "collaborators \<Rightarrow> Run \<Rightarrow> Job option \<Rightarrow> event list \<times> (error + Artifact list)" where
  "reportArtifacts w run selectedJob =
     (case selectedJob of
        None \<Rightarrow>
          (case ListArtifacts w (Itoa (Run_ID run)) of
             Inl err \<Rightarrow>
               ([Call_ListArtifacts (Itoa (Run_ID run))], Inl (Wrap ''failed to get artifacts'' err))
           | Inr artifacts \<Rightarrow> ([Call_ListArtifacts (Itoa (Run_ID run))], Inr artifacts))
      | Some j \<Rightarrow> ([], Inr []))"

fun annotationsLoop ::
  "collaborators \<Rightarrow> Job list \<Rightarrow> Annotation list \<Rightarrow> event list \<times> (error + Annotation list)" where
  "annotationsLoop w [] annotations = ([], Inr annotations)"
| "annotationsLoop w (j # js) annotations =
     (case GetAnnotations w j of
        Inl annotationErr \<Rightarrow>
          ([Call_GetAnnotations j], Inl (Wrap ''failed to get annotations'' annotationErr))
      | Inr as \<Rightarrow>
          (case annotationsLoop w js (annotations @ as) of
             (tr, r) \<Rightarrow> (Call_GetAnnotations j # tr, r)))"

definition exitStatus :: "ViewOptions \<Rightarrow> collaborators \<Rightarrow> conclusion \<Rightarrow> error option" where
  "exitStatus opts w c = (if ExitStatus opts \<and> IsFailureState w c then Some SilentError else None)"

definition report ::
  "ViewOptions \<Rightarrow> collaborators \<Rightarrow> Run \<Rightarrow> Job option \<Rightarrow> Job list \<Rightarrow> string \<Rightarrow>
     Artifact list \<Rightarrow> Annotation list \<Rightarrow> outcome" where
  "report opts w run selectedJob jobs prNumber artifacts annotations =
     (if jobs = [] \<and> Run_Conclusion run = Failure then
        ([Out_WorkflowFileIssue run prNumber],
         if ExitStatus opts then Some SilentError else None)
      else
        ([Out_Report run prNumber jobs annotations artifacts],
         case selectedJob of
           None \<Rightarrow> exitStatus opts w (Run_Conclusion run)
         | Some j \<Rightarrow> exitStatus opts w (Job_Conclusion j)))"

definition viewReport ::
  "ViewOptions \<Rightarrow> collaborators \<Rightarrow> Run \<Rightarrow> Job option \<Rightarrow> Job list \<Rightarrow> outcome" where
  "viewReport opts w run selectedJob jobs =
     andFinally
       (andThen (reportJobs w run selectedJob jobs) (\<lambda>jobs.
        andThen (reportPR w run) (\<lambda>prNumber.
        andThen (reportArtifacts w run selectedJob) (\<lambda>artifacts.
        andThen (annotationsLoop w jobs []) (\<lambda>annotations.
          ([], Inr (jobs, prNumber, artifacts, annotations)))))))
       (\<lambda>(jobs, prNumber, artifacts, annotations).
          report opts w run selectedJob jobs prNumber artifacts annotations)"

definition runView :: "ViewOptions \<Rightarrow> collaborators \<Rightarrow> outcome" where
  "runView opts w =
     andFinally (resolve opts w) (\<lambda>(run, selectedJob, jobs).
       if Web opts then viewWeb w run selectedJob
       else if Log opts then
         (case selectedJob of
            Some j \<Rightarrow> viewJobLog opts w j
          | None \<Rightarrow> viewRunLog w run)
       else viewReport opts w run selectedJob jobs)"

text \<open>
  The command line: the flags fill the options (\<open>RunID\<close> and \<open>Prompt\<close> start
  empty and false), cobra admits one argument at most, and \<open>RunE\<close> settles the
  options before it calls \<open>runView\<close>.
\<close>

record Flags =
  flag_verbose :: bool
  flag_exit_status :: bool
  flag_job :: string
  flag_log :: bool
  flag_web :: bool

definition flagOptions :: "Flags \<Rightarrow> ViewOptions" where
  "flagOptions fl =
     \<lparr>RunID = [], JobID = flag_job fl, Verbose = flag_verbose fl,
      ExitStatus = flag_exit_status fl, Log = flag_log fl, Web = flag_web fl, Prompt = False\<rparr>"

definition RunE :: "ViewOptions \<Rightarrow> collaborators \<Rightarrow> string list \<Rightarrow> outcome" where
  "RunE opts w args =
     (if args = [] \<and> JobID opts = [] \<and> \<not> CanPrompt w then
        ([], Some (FlagError ''run or job ID required when not running interactively''))
      else
        (let opts1 = (if args = [] \<and> JobID opts = [] then opts\<lparr>Prompt := True\<rparr>
                      else if args \<noteq> [] then opts\<lparr>RunID := hd args\<rparr>
                      else opts);
             both = (RunID opts1 \<noteq> [] \<and> JobID opts1 \<noteq> []);
             opts2 = (if both then opts1\<lparr>RunID := []\<rparr> else opts1);
             warning = (if both \<and> CanPrompt w then [ErrOut_Warning] else [])
         in if Web opts2 \<and> Log opts2 then
              (warning, Some (FlagError ''specify only one of --web or --log''))
            else (case runView opts2 w of (tr, r) \<Rightarrow> (warning @ tr, r))))"

definition NewCmdView :: "Flags \<Rightarrow> collaborators \<Rightarrow> string list \<Rightarrow> outcome" where
  "NewCmdView fl w args =
     (if length args > 1 then ([], Some (External ''accepts at most 1 arg(s)''))
      else RunE (flagOptions fl) w args)"

text \<open>
  Modelled from the spec: the exit code of the process is set by the program's
  \<open>main\<close>, outside this file, from the error the command returns: 0 for \<open>nil\<close>,
  another code for an error (\<open>SilentError\<close> is the error without a message that
  \<open>--exit-status\<close> returns).
\<close>

definition exitCode :: "outcome \<Rightarrow> int" where
  "exitCode r = (case snd r of None \<Rightarrow> 0 | Some err \<Rightarrow> 1)"

subsection \<open>File names, in the words of the spec\<close>

text \<open>
  A numeric order token, as the spec uses the word: decimal digits, at least one,
  after an optional sign; \<open>tokenValue\<close> is the integer it denotes and \<open>fitsInt\<close> says
  that an integer fits the 64 bits of \<open>int\<close>. These follow the words of the spec,
  not the code; \<open>Atoi_spec\<close> below compares them with \<open>Atoi\<close>.
\<close>

definition isDigit :: "char \<Rightarrow> bool" where
  "isDigit c = (CHR ''0'' \<le> c \<and> c \<le> CHR ''9'')"

definition isNumeric :: "string \<Rightarrow> bool" where
  "isNumeric tok =
     (case tok of
        [] \<Rightarrow> False
      | c # r \<Rightarrow> if c = CHR ''-'' \<or> c = CHR ''+'' then r \<noteq> [] \<and> list_all isDigit r
                 else list_all isDigit tok)"

definition decimalValue :: "string \<Rightarrow> int" where
  "decimalValue ds = foldl (\<lambda>n c. n * 10 + (of_char c - 48)) 0 ds"

definition tokenValue :: "string \<Rightarrow> int" where
  "tokenValue tok =
     (case tok of
        [] \<Rightarrow> 0
      | c # r \<Rightarrow> if c = CHR ''-'' then - decimalValue r
                 else if c = CHR ''+'' then decimalValue r
                 else decimalValue tok)"

definition fitsInt :: "int \<Rightarrow> bool" where
  "fitsInt v = (- (2 ^ 63) \<le> v \<and> v < 2 ^ 63)"

text \<open>
  The entries the reader does not skip (a directory in the path and the extension
  \<open>.txt\<close>), the base name of an entry (the file name without directory and
  extension), the order token of a name (what stands before its first underscore),
  and the entries with a file name of invalid shape: not skipped, and the base name
  has no underscore or more than one, or the order token is not numeric.
\<close>

definition notSkipped :: "zipFile \<Rightarrow> bool" where
  "notSkipped zf = (fst (Split (Name zf)) \<noteq> [] \<and> Ext (Name zf) = ''.txt'')"

definition orderToken :: "string \<Rightarrow> string" where
  "orderToken file = takeWhile (\<lambda>c. c \<noteq> CHR ''_'') file"

definition baseName :: "zipFile \<Rightarrow> string" where
  "baseName zf = TrimSuffix (snd (Split (Name zf))) ''.txt''"


definition readable :: "zipFile \<Rightarrow> bool" where
  "readable zf = (case readZipFile zf of Inl err \<Rightarrow> False | Inr logs \<Rightarrow> True)"

subsection \<open>Example inputs\<close>

text \<open>An archive whose second entry has an order token that is not numeric.\<close>

definition archive3 :: "zipFile list" where
  "archive3 = [\<lparr>Name = ''alpha/1_build.txt'', readZipFile = Inr ''ok''\<rparr>,
               \<lparr>Name = ''alpha/two_test.txt'', readZipFile = Inr ''fail''\<rparr>,
               \<lparr>Name = ''beta/1_build.txt'', readZipFile = Inr ''ok''\<rparr>]"

subsection \<open>Two sorting routines\<close>

text \<open>
  The insertion sort of package \<open>sort\<close>, on the slice as a list: each element moves
  left while it is less than its left neighbour. \<open>insertLeft\<close> is the inner loop; its
  list is the part already sorted, nearest element first. The library uses it for
  short slices; it keeps the order of elements that are not less than each other.
\<close>

fun insertLeft :: "('a \<Rightarrow> 'a \<Rightarrow> bool) \<Rightarrow> 'a \<Rightarrow> 'a list \<Rightarrow> 'a list" where
  "insertLeft lt x [] = [x]"
| "insertLeft lt x (p # ps) =
     (if lt x p then p # insertLeft lt x ps else x # p # ps)"

definition insertionSort :: "('a \<Rightarrow> 'a \<Rightarrow> bool) \<Rightarrow> 'a list \<Rightarrow> 'a list" where
  "insertionSort lt data = rev (foldl (\<lambda>sorted x. insertLeft lt x sorted) [] data)"

text \<open>
  The end of the library's \<open>quickSort\<close> as it was up to Go 1.18, which is all of it
  for a slice of at most 12 elements: one pass that swaps \<open>data[i]\<close> and \<open>data[i-6]\<close>
  when the first is less than the second, then the insertion sort.
\<close>

function gapPass :: "('a \<Rightarrow> 'a \<Rightarrow> bool) \<Rightarrow> nat \<Rightarrow> 'a list \<Rightarrow> 'a list" where
  "gapPass lt i data =
     (if i < length data then
        gapPass lt (Suc i)
          (if lt (data ! i) (data ! (i - 6))
           then data[i := data ! (i - 6), i - 6 := data ! i]
           else data)
      else data)"
  by pat_completeness auto
termination
  by (relation "measure (\<lambda>(lt, i, data). length data - i)") auto

declare gapPass.simps [simp del]

definition gapInsertionSort :: "('a \<Rightarrow> 'a \<Rightarrow> bool) \<Rightarrow> 'a list \<Rightarrow> 'a list" where
  "gapInsertionSort lt data =
     (if length data > 1 then insertionSort lt (gapPass lt 6 data) else data)"

text \<open>The list of the insertion sort is kept in descending order.\<close>

definition descending :: "step list \<Rightarrow> bool" where
  "descending ps = sorted_wrt (\<lambda>a b. \<not> stepLess a b) ps"

subsection \<open>Example worlds\<close>

text \<open>
  A world in which the session is not interactive, the factory functions work, no
  run and no job is known, no log can be downloaded, the pager starts, and
  \<open>sort.Slice\<close> is the insertion sort. The failure states are those of package
  \<open>shared\<close>: failure, timed out, startup failure and action required.
\<close>

definition world0 :: collaborators where
  "world0 =
     \<lparr>CanPrompt = False, IsStdoutTTY = False, HttpClient = None, BaseRepo = None,
      getJob = (\<lambda>jobID. Inl (External ''HTTP 404'')),
      GetRuns = (\<lambda>limit. Inr []),
      PromptForRun = (\<lambda>runs. Inl (External ''interrupt'')),
      GetRun = (\<lambda>runID. Inl (External ''HTTP 404'')),
      GetJobs = (\<lambda>run. Inr []),
      SurveyAskOne = (\<lambda>n. Inr 0),
      Browse = (\<lambda>url. None),
      getJobLog = (\<lambda>jobID. Inl (ErrorNew ''log not found'')),
      Copy = (\<lambda>r. None),
      getRunLog = (\<lambda>runID. Inl (ErrorNew ''log not found'')),
      StartPager = None,
      PullRequestForRun = (\<lambda>run. Inl (External ''HTTP 404'')),
      ListArtifacts = (\<lambda>runID. Inr []),
      GetAnnotations = (\<lambda>j. Inr []),
      IsFailureState = (\<lambda>c. c = Failure \<or> c = OtherConclusion ''timed_out''
                          \<or> c = OtherConclusion ''startup_failure''
                          \<or> c = OtherConclusion ''action_required''),
      sort_Slice = insertionSort\<rparr>"

text \<open>A completed run that failed, a completed job of it that failed, and the options of \<open>gh run view 123 --log\<close>.\<close>

definition run123 :: Run where
  "run123 = \<lparr>Run_ID = 123, Run_Status = Completed, Run_Conclusion = Failure,
             Run_URL = ''https://github.com/OWNER/REPO/actions/runs/123''\<rparr>"

definition job456 :: Job where
  "job456 = \<lparr>Job_ID = 456, Job_RunID = 123, Job_Name = ''build'', Job_Status = Completed,
             Job_Conclusion = Failure,
             Job_URL = ''https://github.com/OWNER/REPO/runs/456''\<rparr>"

definition optsLog123 :: ViewOptions where
  "optsLog123 = \<lparr>RunID = ''123'', JobID = [], Verbose = False, ExitStatus = False,
                 Log = True, Web = False, Prompt = False\<rparr>"

text \<open>The world in which run 123 exists and its log archive is \<open>archive3\<close>.\<close>

definition world3 :: collaborators where
  "world3 = world0\<lparr>GetRun := (\<lambda>runID. if runID = ''123'' then Inr run123 else Inl (External ''HTTP 404'')),
                   getRunLog := (\<lambda>runID. Inr (ZipArchive archive3))\<rparr>"

subsection \<open>The maps the reader builds\<close>

text \<open>
  What holds of every map \<open>readRunLog\<close> returns: the keys are distinct (it is a map)
  and each job is stored under its own name.
\<close>

definition wellFormed :: "runLog \<Rightarrow> bool" where
  "wellFormed rl = (distinct (map fst rl) \<and> (\<forall>(k, j) \<in> set rl. job_name j = k))"

text \<open>The order in which the renderer is to print: by job name, then by the order of the step.\<close>

definition jobThenStep :: "job \<times> step \<Rightarrow> job \<times> step \<Rightarrow> bool" where
  "jobThenStep a b =
     (job_name (fst a) < job_name (fst b)
      \<or> (job_name (fst a) = job_name (fst b) \<and> step_order (snd a) \<le> step_order (snd b)))"

text \<open>All steps of a map, each with its job, job by job in the order of the association list.\<close>

definition allSteps :: "runLog \<Rightarrow> (job \<times> step) list" where
  "allSteps rl = concat (map (\<lambda>(k, j). map (Pair j) (job_steps j)) rl)"

text \<open>
  An archive of one job with seven steps, two of them (\<open>a\<close> and \<open>b\<close>, in this order)
  with the order 2, and the last one with the least order.
\<close>

definition archive7 :: "zipFile list" where
  "archive7 = [\<lparr>Name = ''build/2_a.txt'', readZipFile = Inr ''x''\<rparr>,
               \<lparr>Name = ''build/2_b.txt'', readZipFile = Inr ''x''\<rparr>,
               \<lparr>Name = ''build/3_c.txt'', readZipFile = Inr ''x''\<rparr>,
               \<lparr>Name = ''build/3_d.txt'', readZipFile = Inr ''x''\<rparr>,
               \<lparr>Name = ''build/3_e.txt'', readZipFile = Inr ''x''\<rparr>,
               \<lparr>Name = ''build/3_f.txt'', readZipFile = Inr ''x''\<rparr>,
               \<lparr>Name = ''build/1_g.txt'', readZipFile = Inr ''x''\<rparr>]"

definition steps7 :: "step list" where
  "steps7 = [\<lparr>step_order = 2, step_name = ''a'', step_logs = ''x''\<rparr>,
             \<lparr>step_order = 2, step_name = ''b'', step_logs = ''x''\<rparr>,
             \<lparr>step_order = 3, step_name = ''c'', step_logs = ''x''\<rparr>,
             \<lparr>step_order = 3, step_name = ''d'', step_logs = ''x''\<rparr>,
             \<lparr>step_order = 3, step_name = ''e'', step_logs = ''x''\<rparr>,
             \<lparr>step_order = 3, step_name = ''f'', step_logs = ''x''\<rparr>,
             \<lparr>step_order = 1, step_name = ''g'', step_logs = ''x''\<rparr>]"

text \<open>
  A log whose first line has \<open>MaxScanTokenSize\<close> bytes, an archive with one step
  that has this log, and the world in which it is the log archive of run 123.
\<close>

definition longLog :: string where
  "longLog = replicate 65536 CHR ''a'' @ [CHR 0x0A] @ ''done'' @ [CHR 0x0A]"

definition archiveLong :: "zipFile list" where
  "archiveLong = [\<lparr>Name = ''build/1_compile.txt'', readZipFile = Inr longLog\<rparr>]"

definition worldLong :: collaborators where
  "worldLong = world0\<lparr>GetRun := (\<lambda>runID. if runID = ''123'' then Inr run123 else Inl (External ''HTTP 404'')),
                      getRunLog := (\<lambda>runID. Inr (ZipArchive archiveLong))\<rparr>"

text \<open>
  The world of the spec's example archive, as the log of run 123, with job 456 and
  its log; and the command lines \<open>gh run view 123 --log --exit-status\<close> and
  \<open>gh run view --job 456 --log --exit-status\<close>.
\<close>

definition archiveExample :: "zipFile list" where
  "archiveExample = [\<lparr>Name = ''alpha/1_build.txt'', readZipFile = Inr (''ok'' @ [CHR 0x0A])\<rparr>,
                     \<lparr>Name = ''alpha/2_test.txt'', readZipFile = Inr (''fail'' @ [CHR 0x0A])\<rparr>,
                     \<lparr>Name = ''beta/1_build.txt'', readZipFile = Inr (''ok'' @ [CHR 0x0A])\<rparr>]"

definition worldExample :: collaborators where
  "worldExample =
     world0\<lparr>GetRun := (\<lambda>runID. if runID = ''123'' then Inr run123 else Inl (External ''HTTP 404'')),
            getJob := (\<lambda>jobID. if jobID = ''456'' then Inr job456 else Inl (External ''HTTP 404'')),
            getRunLog := (\<lambda>runID. Inr (ZipArchive archiveExample)),
            getJobLog := (\<lambda>jobID. Inr (''fail'' @ [CHR 0x0A]))\<rparr>"

definition flagsLogExit :: Flags where
  "flagsLogExit = \<lparr>flag_verbose = False, flag_exit_status = True, flag_job = [],
                   flag_log = True, flag_web = False\<rparr>"

definition flagsJobLogExit :: Flags where
  "flagsJobLogExit = \<lparr>flag_verbose = False, flag_exit_status = True, flag_job = ''456'',
                      flag_log = True, flag_web = False\<rparr>"

subsection \<open>The lines of a log, in the words of the spec\<close>

text \<open>
  The lines of a text as the spec counts them: the text is cut at every newline, and
  what follows the last newline is a line when it is not empty (a trailing partial
  line). This follows the words of the spec; \<open>scanLines_logLines\<close> below compares it
  with the scanner.
\<close>

definition logLines :: "string \<Rightarrow> string list" where
  "logLines s =
     (let pieces = strings_Split s (CHR 0x0A)
      in if last pieces = [] then butlast pieces else pieces)"

subsection \<open>How the target is found, in the words of the spec\<close>









subsection \<open>The steps of an archive, in the words of the spec\<close>

text \<open>
  What the spec says an entry that is not skipped stands for: the job name is the
  directory component without its trailing separator; the step has the order its
  token denotes, the name that follows the first underscore of the base name, and
  the payload as its log. \<open>stepsIn\<close> lists, for a job name, the steps of the entries
  of that job, in the order of the archive; \<open>jobsIn\<close> is the set of the job names of
  an archive. \<open>stepsOf\<close> reads the steps of a job off a map (none for a name that is
  not a key).
\<close>

definition jobOf :: "zipFile \<Rightarrow> string" where
  "jobOf zf = butlast (fst (Split (Name zf)))"

definition stepOf :: "zipFile \<Rightarrow> step" where
  "stepOf zf =
     \<lparr>step_order = tokenValue (orderToken (baseName zf)),
      step_name = tl (dropWhile (\<lambda>c. c \<noteq> CHR ''_'') (baseName zf)),
      step_logs = (case readZipFile zf of Inl err \<Rightarrow> [] | Inr logs \<Rightarrow> logs)\<rparr>"

definition stepsIn :: "zipFile list \<Rightarrow> string \<Rightarrow> step list" where
  "stepsIn files name = map stepOf (filter (\<lambda>zf. notSkipped zf \<and> jobOf zf = name) files)"

definition jobsIn :: "zipFile list \<Rightarrow> string set" where
  "jobsIn files = jobOf ` {zf \<in> set files. notSkipped zf}"

definition stepsOf :: "runLog \<Rightarrow> string \<Rightarrow> step list" where
  "stepsOf rl name = (case map_of rl name of None \<Rightarrow> [] | Some j \<Rightarrow> job_steps j)"

text \<open>
  A valid name: one underscore in the base name, and before it a numeric token whose
  value fits the 64-bit \<open>int\<close>. An entry passes when the reader skips it, or when its
  name is valid and its payload can be read.
\<close>

definition validName :: "zipFile \<Rightarrow> bool" where
  "validName zf =
     (count_list (baseName zf) CHR ''_'' = 1
      \<and> isNumeric (orderToken (baseName zf))
      \<and> fitsInt (tokenValue (orderToken (baseName zf))))"

definition passes :: "zipFile \<Rightarrow> bool" where
  "passes zf = (\<not> notSkipped zf \<or> (validName zf \<and> readable zf))"



text \<open>
  An archive with two entries whose underscore stands right before the extension:
  one of a job that has a step already, one of a job that has none.
\<close>

definition archiveEmptyNames :: "zipFile list" where
  "archiveEmptyNames =
     [\<lparr>Name = ''alpha/1_build.txt'', readZipFile = Inr ''ok''\<rparr>,
      \<lparr>Name = ''beta/1_build.txt'', readZipFile = Inr ''ok''\<rparr>,
      \<lparr>Name = ''alpha/2_.txt'', readZipFile = Inr ''two''\<rparr>,
      \<lparr>Name = ''gamma/3_.txt'', readZipFile = Inr ''three''\<rparr>]"

section \<open>Properties\<close>

subsection \<open>The library functions\<close>

lemma Split_append:
  "CHR ''/'' \<notin> set f \<Longrightarrow> Split (d @ CHR ''/'' # f) = (d @ [CHR ''/''], f)"
proof -
  assume a: "CHR ''/'' \<notin> set f"
  have "takeWhile (\<lambda>c. \<not> IsPathSeparator c) (rev f @ CHR ''/'' # rev d) = rev f"
    using a by (subst takeWhile_append2) (auto simp: IsPathSeparator_def)
  then show ?thesis
    by (simp add: Split_def Let_def)
qed

lemma Split_parts:
  assumes "Split p = (dir, file)"
  shows "p = dir @ file" and "CHR ''/'' \<notin> set file"
proof -
  let ?f = "rev (takeWhile (\<lambda>c. \<not> IsPathSeparator c) (rev p))"
  have f: "file = ?f" and d: "dir = take (length p - length ?f) p"
    using assms by (auto simp: Split_def Let_def)
  have "rev p = takeWhile (\<lambda>c. \<not> IsPathSeparator c) (rev p) @ dropWhile (\<lambda>c. \<not> IsPathSeparator c) (rev p)"
    by simp
  then have "p = rev (dropWhile (\<lambda>c. \<not> IsPathSeparator c) (rev p)) @ ?f"
    by (metis rev_append rev_rev_ident)
  moreover from this have "take (length p - length ?f) p = rev (dropWhile (\<lambda>c. \<not> IsPathSeparator c) (rev p))"
    by (metis append_eq_conv_conj length_append add_diff_cancel_right')
  ultimately show "p = dir @ file" using f d by simp
  have "\<forall>c \<in> set (takeWhile (\<lambda>c. \<not> IsPathSeparator c) (rev p)). \<not> IsPathSeparator c"
    by (auto dest: set_takeWhileD)
  then show "CHR ''/'' \<notin> set file"
    using f by (auto simp: IsPathSeparator_def)
qed

lemma strings_Split_not_Nil: "strings_Split s sep \<noteq> []"
  by (induction s) (auto split: list.splits)

lemma length_strings_Split: "length (strings_Split s sep) = Suc (count_list s sep)"
  by (induction s) (auto split: list.splits simp: strings_Split_not_Nil)

lemma strings_Split_no_sep: "sep \<notin> set s \<Longrightarrow> strings_Split s sep = [s]"
  by (induction s) auto

lemma strings_Split_append:
  "sep \<notin> set a \<Longrightarrow> strings_Split (a @ sep # b) sep = a # strings_Split b sep"
  by (induction a) auto

lemma strings_Split_decompose:
  "strings_Split s sep =
     (if sep \<in> set s
      then takeWhile (\<lambda>c. c \<noteq> sep) s # strings_Split (tl (dropWhile (\<lambda>c. c \<noteq> sep) s)) sep
      else [s])"
  by (induction s) (auto simp: strings_Split_no_sep)

lemma count_list_0: "count_list s x = 0 \<longleftrightarrow> x \<notin> set s"
  by (induction s) auto

lemma strings_Split_two:
  "count_list s sep = 1 \<Longrightarrow>
   strings_Split s sep = [takeWhile (\<lambda>c. c \<noteq> sep) s, tl (dropWhile (\<lambda>c. c \<noteq> sep) s)]"
proof (induction s)
  case Nil
  then show ?case by simp
next
  case (Cons c s)
  show ?case
  proof (cases "c = sep")
    case True
    with Cons.prems have "sep \<notin> set s" by (simp add: count_list_0)
    with True show ?thesis by (simp add: strings_Split_no_sep)
  next
    case False
    with Cons show ?thesis by simp
  qed
qed

subsection \<open>One entry of the archive\<close>

lemma entry_split:
  assumes "Split (Name zf) = (dir, file)" "dir \<noteq> []" "Ext (Name zf) = ''.txt''"
  shows "readRunLog_entry rl zf =
     (if count_list file CHR ''_'' \<noteq> 1 then Inl InvalidStepFilename
      else (case Atoi (takeWhile (\<lambda>c. c \<noteq> CHR ''_'') file) of
              None \<Rightarrow> Inl InvalidStepFilename
            | Some n \<Rightarrow>
                (case readZipFile zf of
                   Inl err \<Rightarrow> Inl err
                 | Inr logs \<Rightarrow>
                     Inr (addStep rl (TrimSuffix dir ''/'')
                            \<lparr>step_order = n,
                             step_name = TrimSuffix (tl (dropWhile (\<lambda>c. c \<noteq> CHR ''_'') file)) ''.txt'',
                             step_logs = logs\<rparr>))))"
proof (cases "count_list file CHR ''_'' = 1")
  case True
  then have "strings_Split file CHR ''_'' =
      [takeWhile (\<lambda>c. c \<noteq> CHR ''_'') file, tl (dropWhile (\<lambda>c. c \<noteq> CHR ''_'') file)]"
    by (rule strings_Split_two)
  with True assms show ?thesis
    by (simp add: readRunLog_entry_def)
next
  case False
  then have "length (strings_Split file CHR ''_'') \<noteq> 2"
    by (simp add: length_strings_Split)
  with False assms show ?thesis
    by (simp add: readRunLog_entry_def)
qed

lemma entry_skipped:
  assumes "Split (Name zf) = (dir, file)" "dir = [] \<or> Ext (Name zf) \<noteq> ''.txt''"
  shows "readRunLog_entry rl zf = Inr rl"
  using assms by (auto simp: readRunLog_entry_def)

lemma digitVal_char:
  "digitVal c = Some d \<Longrightarrow> c \<noteq> CHR ''/'' \<and> c \<noteq> CHR ''_'' \<and> c \<noteq> CHR ''.''"
  by (auto simp: digitVal_def Let_def split: if_splits)

lemma parseDigits_chars:
  "parseDigits a s = Some k \<Longrightarrow> c \<in> set s \<Longrightarrow> c \<noteq> CHR ''/'' \<and> c \<noteq> CHR ''_'' \<and> c \<noteq> CHR ''.''"
proof (induction s arbitrary: a)
  case Nil
  then show ?case by simp
next
  case (Cons x s)
  from Cons.prems(1) obtain d where d: "digitVal x = Some d" and r: "parseDigits (a * 10 + d) s = Some k"
    by (auto split: option.splits)
  show ?case
  proof (cases "c = x")
    case True
    with d show ?thesis using digitVal_char by blast
  next
    case False
    with Cons.prems(2) have "c \<in> set s" by simp
    with Cons.IH[OF r] show ?thesis .
  qed
qed

lemma Atoi_chars:
  assumes "Atoi s = Some k" "c \<in> set s"
  shows "c \<noteq> CHR ''/'' \<and> c \<noteq> CHR ''_'' \<and> c \<noteq> CHR ''.''"
proof (cases s)
  case Nil
  with assms show ?thesis by simp
next
  case (Cons x r)
  show ?thesis
  proof (cases "x = CHR ''-'' \<or> x = CHR ''+''")
    case True
    with assms(1) Cons obtain n where n: "parseDigits 0 r = Some n"
      by (auto simp: Atoi_def Let_def split: if_splits option.splits)
    show ?thesis
    proof (cases "c = x")
      case True
      with \<open>x = CHR ''-'' \<or> x = CHR ''+''\<close> show ?thesis by auto
    next
      case False
      with assms(2) Cons have "c \<in> set r" by simp
      with parseDigits_chars[OF n] show ?thesis .
    qed
  next
    case False
    with assms(1) Cons obtain n where n: "parseDigits 0 s = Some n"
      by (auto simp: Atoi_def Let_def split: if_splits option.splits)
    with parseDigits_chars[OF n] assms(2) show ?thesis by blast
  qed
qed

lemma TrimSuffix_append: "TrimSuffix (s @ suffix) suffix = s"
  by (simp add: TrimSuffix_def HasSuffix_def)

lemma TrimSuffix_self: "TrimSuffix suffix suffix = []"
  by (simp add: TrimSuffix_def HasSuffix_def)

lemma Ext_txt:
  "Ext (p @ ''.txt'') = ''.txt''"
  by (simp add: Ext_def IsPathSeparator_def)

subsection \<open>The order token\<close>

lemma of_char_int: "(of_char c :: int) = int (of_char c)"
  by (simp add: of_nat_of_char)

lemma digitVal_isDigit:
  "digitVal c = (if isDigit c then Some (of_char c - 48) else None)"
  by (auto simp: digitVal_def isDigit_def Let_def less_eq_char_def of_char_int)

lemma parseDigits_foldl:
  "parseDigits a s =
     (if list_all isDigit s then Some (foldl (\<lambda>n c. n * 10 + (of_char c - 48)) a s) else None)"
  by (induction s arbitrary: a) (auto simp: digitVal_isDigit)

lemma isDigit_signs: "\<not> isDigit CHR ''-''" "\<not> isDigit CHR ''+''"
  by (simp_all add: isDigit_def less_eq_char_def)

lemma Atoi_spec:
  "Atoi tok = (if isNumeric tok \<and> fitsInt (tokenValue tok) then Some (tokenValue tok) else None)"
proof (cases tok)
  case Nil
  then show ?thesis by (simp add: Atoi_def isNumeric_def)
next
  case (Cons c r)
  then show ?thesis
    by (cases r)
       (auto simp: Atoi_def isNumeric_def tokenValue_def decimalValue_def fitsInt_def
          parseDigits_foldl Let_def isDigit_signs)
qed

subsection \<open>The loop over the entries\<close>

lemma entry_cases:
  "readRunLog_entry rl zf =
     (if \<not> notSkipped zf then Inr rl
      else if count_list (snd (Split (Name zf))) CHR ''_'' \<noteq> 1 then Inl InvalidStepFilename
      else (case Atoi (orderToken (snd (Split (Name zf)))) of
              None \<Rightarrow> Inl InvalidStepFilename
            | Some n \<Rightarrow>
                (case readZipFile zf of
                   Inl err \<Rightarrow> Inl err
                 | Inr logs \<Rightarrow>
                     Inr (addStep rl (TrimSuffix (fst (Split (Name zf))) ''/'')
                            \<lparr>step_order = n,
                             step_name = TrimSuffix (tl (dropWhile (\<lambda>c. c \<noteq> CHR ''_'')
                                            (snd (Split (Name zf))))) ''.txt'',
                             step_logs = logs\<rparr>))))"
proof (cases "notSkipped zf")
  case True
  obtain d f where sp: "Split (Name zf) = (d, f)" by (cases "Split (Name zf)")
  with True have "d \<noteq> []" "Ext (Name zf) = ''.txt''" by (simp_all add: notSkipped_def)
  from entry_split[OF sp this] True sp show ?thesis
    by (simp add: orderToken_def split: option.splits sum.splits)
next
  case False
  obtain d f where sp: "Split (Name zf) = (d, f)" by (cases "Split (Name zf)")
  with False have "d = [] \<or> Ext (Name zf) \<noteq> ''.txt''" by (auto simp: notSkipped_def)
  from entry_skipped[OF sp this] False show ?thesis by simp
qed

lemma Ext_scan_suffix:
  "Ext_scan r passed = e \<Longrightarrow> e \<noteq> [] \<Longrightarrow>
   \<exists>r1 r2. r = r1 @ CHR ''.'' # r2 \<and> e = CHR ''.'' # rev r1 @ passed \<and> CHR ''/'' \<notin> set r1"
proof (induction r passed rule: Ext_scan.induct)
  case (1 passed)
  then show ?case by simp
next
  case (2 c r passed)
  show ?case
  proof (cases "IsPathSeparator c")
    case True
    with 2 show ?thesis by simp
  next
    case sep: False
    show ?thesis
    proof (cases "c = CHR ''.''")
      case True
      with sep 2 have "c # r = [] @ CHR ''.'' # r \<and> e = CHR ''.'' # rev [] @ passed \<and> CHR ''/'' \<notin> set []"
        by auto
      then show ?thesis by blast
    next
      case False
      with sep 2 obtain r1 r2 where
        h: "r = r1 @ CHR ''.'' # r2" "e = CHR ''.'' # rev r1 @ c # passed" "CHR ''/'' \<notin> set r1"
        by auto
      with sep have "c # r = (c # r1) @ CHR ''.'' # r2 \<and> e = CHR ''.'' # rev (c # r1) @ passed
          \<and> CHR ''/'' \<notin> set (c # r1)"
        by (auto simp: IsPathSeparator_def)
      then show ?thesis by blast
    qed
  qed
qed

lemma Ext_file_suffix:
  assumes "Ext p = e" "e \<noteq> []"
  shows "\<exists>b. snd (Split p) = b @ e"
proof -
  from Ext_scan_suffix[OF assms(1)[unfolded Ext_def] assms(2)] obtain r1 r2 where
    h: "rev p = r1 @ CHR ''.'' # r2" "e = CHR ''.'' # rev r1" "CHR ''/'' \<notin> set r1"
    by auto
  have re: "rev e = r1 @ [CHR ''.'']" using h(2) by simp
  have "rev p = rev e @ r2" using h(1) re by simp
  moreover have "\<forall>c \<in> set (rev e). \<not> IsPathSeparator c"
    using h(3) re by (auto simp: IsPathSeparator_def)
  ultimately have "takeWhile (\<lambda>c. \<not> IsPathSeparator c) (rev p) =
      rev e @ takeWhile (\<lambda>c. \<not> IsPathSeparator c) r2"
    by (metis takeWhile_append2)
  then have "snd (Split p) = rev (takeWhile (\<lambda>c. \<not> IsPathSeparator c) r2) @ e"
    by (simp add: Split_def Let_def)
  then show ?thesis by blast
qed

lemma notSkipped_file: "notSkipped zf \<Longrightarrow> snd (Split (Name zf)) = baseName zf @ ''.txt''"
proof -
  assume "notSkipped zf"
  then have "Ext (Name zf) = ''.txt''" by (simp add: notSkipped_def)
  from Ext_file_suffix[OF this] obtain b where "snd (Split (Name zf)) = b @ ''.txt''" by auto
  then show ?thesis by (simp add: baseName_def TrimSuffix_append)
qed

lemma notSkipped_count:
  "notSkipped zf \<Longrightarrow>
   count_list (snd (Split (Name zf))) CHR ''_'' = count_list (baseName zf) CHR ''_''"
  by (simp add: notSkipped_file)

lemma notSkipped_token:
  assumes "notSkipped zf" "count_list (baseName zf) CHR ''_'' = 1"
  shows "orderToken (snd (Split (Name zf))) = orderToken (baseName zf)"
proof -
  from assms(2) have "CHR ''_'' \<in> set (baseName zf)"
    using count_list_0[of "baseName zf" "CHR ''_''"] by auto
  then show ?thesis
    using notSkipped_file[OF assms(1)] by (simp add: orderToken_def takeWhile_append1)
qed


lemma entry_error_readable:
  "readable zf \<Longrightarrow> readRunLog_entry rl zf = Inl err \<Longrightarrow> err = InvalidStepFilename"
  by (auto simp: entry_cases readable_def split: if_splits option.splits sum.splits)



lemma loop_error_readable:
  "\<forall>z\<in>set files. readable z \<Longrightarrow> snd (readRunLog_loop rl files) = Some err \<Longrightarrow>
   err = InvalidStepFilename"
proof (induction files arbitrary: rl)
  case Nil
  then show ?case by simp
next
  case (Cons x xs)
  show ?case
  proof (cases "readRunLog_entry rl x")
    case (Inl e)
    with Cons.prems show ?thesis using entry_error_readable[of x rl e] by simp
  next
    case (Inr rl')
    with Cons show ?thesis by simp
  qed
qed

lemma loop_failure:
  "snd (readRunLog_loop rl files) = Some err \<Longrightarrow>
   \<exists>pre bad post. files = pre @ bad # post \<and>
      readRunLog_loop rl pre = (fst (readRunLog_loop rl files), None) \<and>
      readRunLog_entry (fst (readRunLog_loop rl files)) bad = Inl err"
proof (induction files arbitrary: rl)
  case Nil
  then show ?case by simp
next
  case (Cons x xs)
  show ?case
  proof (cases "readRunLog_entry rl x")
    case (Inl e)
    with Cons.prems have "e = err" by simp
    with Inl have "x # xs = [] @ x # xs \<and> readRunLog_loop rl [] = (fst (readRunLog_loop rl (x # xs)), None)
        \<and> readRunLog_entry (fst (readRunLog_loop rl (x # xs))) x = Inl err"
      by simp
    then show ?thesis by blast
  next
    case (Inr rl')
    with Cons.prems have "snd (readRunLog_loop rl' xs) = Some err" by simp
    from Cons.IH[OF this] obtain pre bad post where
      h: "xs = pre @ bad # post" "readRunLog_loop rl' pre = (fst (readRunLog_loop rl' xs), None)"
         "readRunLog_entry (fst (readRunLog_loop rl' xs)) bad = Inl err"
      by blast
    with Inr have "x # xs = (x # pre) @ bad # post \<and>
        readRunLog_loop rl (x # pre) = (fst (readRunLog_loop rl (x # xs)), None) \<and>
        readRunLog_entry (fst (readRunLog_loop rl (x # xs))) bad = Inl err"
      by simp
    then show ?thesis by blast
  qed
qed

subsection \<open>The log path of the command\<close>



subsection \<open>The sorting routines keep the promise of the library\<close>

lemma mset_insertLeft: "mset (insertLeft lt x ps) = add_mset x (mset ps)"
  by (induction ps) auto

lemma set_insertLeft: "set (insertLeft lt x ps) = insert x (set ps)"
  by (induction ps) auto

lemma mset_foldl_insertLeft:
  "mset (foldl (\<lambda>sorted x. insertLeft lt x sorted) acc data) = mset acc + mset data"
  by (induction data arbitrary: acc) (auto simp: mset_insertLeft)

lemma mset_insertionSort: "mset (insertionSort lt data) = mset data"
  by (simp add: insertionSort_def mset_foldl_insertLeft)

lemma descending_insertLeft:
  "descending ps \<Longrightarrow> descending (insertLeft stepLess x ps)"
  by (induction ps) (auto simp: descending_def stepLess_def set_insertLeft)

lemma descending_foldl:
  "descending acc \<Longrightarrow> descending (foldl (\<lambda>sorted x. insertLeft stepLess x sorted) acc data)"
  by (induction data arbitrary: acc) (auto simp: descending_insertLeft)

lemma sorted_insertionSort:
  "sorted_wrt (\<lambda>a b. \<not> stepLess b a) (insertionSort stepLess data)"
proof -
  have "descending (foldl (\<lambda>sorted x. insertLeft stepLess x sorted) [] data)"
    by (rule descending_foldl) (simp add: descending_def)
  then show ?thesis
    by (simp add: insertionSort_def descending_def sorted_wrt_rev)
qed

lemma length_gapPass: "length (gapPass lt i data) = length data"
  by (induction lt i data rule: gapPass.induct) (subst gapPass.simps, auto)

lemma mset_gapPass: "mset (gapPass lt i data) = mset data"
proof (induction lt i data rule: gapPass.induct)
  case (1 lt i data)
  show ?case
  proof (cases "i < length data")
    case True
    have sw: "mset (data[i := data ! (i - 6), i - 6 := data ! i]) = mset data"
      using True by (simp add: mset_swap)
    from True 1 sw show ?thesis
      by (subst gapPass.simps) (auto split: if_splits)
  next
    case False
    then show ?thesis by (subst gapPass.simps) simp
  qed
qed

lemma insertionSort_contract: "sort_Slice_contract insertionSort"
  by (simp add: sort_Slice_contract_def mset_insertionSort sorted_insertionSort)

lemma gapInsertionSort_contract: "sort_Slice_contract gapInsertionSort"
proof -
  have "mset (gapInsertionSort stepLess xs) = mset xs" for xs
    by (simp add: gapInsertionSort_def mset_insertionSort mset_gapPass)
  moreover have "sorted_wrt (\<lambda>a b. \<not> stepLess b a) (gapInsertionSort stepLess xs)" for xs
  proof (cases "length xs > 1")
    case True
    then show ?thesis by (simp add: gapInsertionSort_def sorted_insertionSort)
  next
    case False
    then have "xs = [] \<or> (\<exists>x. xs = [x])"
      by (cases xs) auto
    then show ?thesis by (auto simp: gapInsertionSort_def)
  qed
  ultimately show ?thesis by (simp add: sort_Slice_contract_def)
qed

subsection \<open>The example inputs\<close>

lemma resolve_optsLog123_world3:
  "resolve optsLog123 world3 = ([Call_GetRun ''123''], Inr (run123, None, []))"
  by (simp add: resolve_def andThen_def fetchSelectedJob_def promptRun_def fetchRun_def
        promptJob_def optsLog123_def world3_def world0_def)

lemma archive3_result:
  "readRunLog (ZipArchive archive3) =
     ([(''alpha'', \<lparr>job_name = ''alpha'',
          job_steps = [\<lparr>step_order = 1, step_name = ''build'', step_logs = ''ok''\<rparr>]\<rparr>)],
      Some InvalidStepFilename)"
  by (simp add: archive3_def Atoi_def digitVal_def readRunLog_entry_def Split_def Ext_def
        IsPathSeparator_def TrimSuffix_def HasSuffix_def addStep_def Let_def)

subsection \<open>The maps of the reader and the order of the renderer\<close>

lemma set_AList_update: "set (AList.update k v al) \<subseteq> insert (k, v) (set al)"
  by (induction al) auto

lemma wellFormed_addStep: "wellFormed rl \<Longrightarrow> wellFormed (addStep rl k st)"
proof (cases "map_of rl k")
  case None
  assume wf: "wellFormed rl"
  from None have "k \<notin> fst ` set rl" by (simp add: map_of_eq_None_iff)
  with wf None show ?thesis
    by (auto simp: wellFormed_def addStep_def)
next
  case (Some j)
  assume wf: "wellFormed rl"
  from Some have "(k, j) \<in> set rl" by (rule map_of_SomeD)
  with wf have n: "job_name j = k" by (auto simp: wellFormed_def)
  have d: "distinct (map fst (AList.update k (j\<lparr>job_steps := job_steps j @ [st]\<rparr>) rl))"
    using wf by (simp add: wellFormed_def distinct_update)
  have "\<forall>(k', j') \<in> set (AList.update k (j\<lparr>job_steps := job_steps j @ [st]\<rparr>) rl). job_name j' = k'"
  proof (intro ballI)
    fix x
    assume "x \<in> set (AList.update k (j\<lparr>job_steps := job_steps j @ [st]\<rparr>) rl)"
    then have "x = (k, j\<lparr>job_steps := job_steps j @ [st]\<rparr>) \<or> x \<in> set rl"
      using set_AList_update by fastforce
    with wf n show "case x of (k', j') \<Rightarrow> job_name j' = k'"
      by (auto simp: wellFormed_def)
  qed
  with d Some show ?thesis by (simp add: wellFormed_def addStep_def)
qed

lemma wellFormed_entry:
  "wellFormed rl \<Longrightarrow> readRunLog_entry rl zf = Inr rl' \<Longrightarrow> wellFormed rl'"
  by (auto simp: entry_cases wellFormed_addStep split: if_splits option.splits sum.splits)

lemma wellFormed_loop: "wellFormed rl \<Longrightarrow> wellFormed (fst (readRunLog_loop rl files))"
proof (induction files arbitrary: rl)
  case Nil
  then show ?case by simp
next
  case (Cons zf files)
  then show ?case
    by (cases "readRunLog_entry rl zf") (auto dest: wellFormed_entry)
qed

lemma wellFormed_Nil: "wellFormed []"
  by (simp add: wellFormed_def)

lemma wellFormed_readRunLog: "wellFormed (fst (readRunLog rlz))"
  by (cases rlz) (simp_all add: wellFormed_loop wellFormed_Nil)

lemma sorted_wrt_concat_map:
  "sorted_wrt (\<lambda>a b. \<forall>x\<in>set (f a). \<forall>y\<in>set (f b). R x y) xs \<Longrightarrow>
   (\<And>a. a \<in> set xs \<Longrightarrow> sorted_wrt R (f a)) \<Longrightarrow>
   sorted_wrt R (concat (map f xs))"
  by (induction xs) (auto simp: sorted_wrt_append)

lemma jobNames_strict: "wellFormed rl \<Longrightarrow> sorted_wrt (<) (jobNames rl)"
  by (simp add: wellFormed_def jobNames_def strict_sorted_iff)

lemma wellFormed_lookup:
  "wellFormed rl \<Longrightarrow> map_of rl name = Some j \<Longrightarrow> job_name j = name"
  by (auto simp: wellFormed_def dest: map_of_SomeD)

lemma visited_sorted:
  assumes c: "sort_Slice_contract srt" and wf: "wellFormed rl"
  shows "sorted_wrt jobThenStep (visited srt rl)"
  unfolding visited_def
proof (rule sorted_wrt_concat_map)
  let ?f = "\<lambda>name. case map_of rl name of None \<Rightarrow> []
                   | Some j \<Rightarrow> map (Pair j) (srt stepLess (job_steps j))"
  have names: "\<And>x name. x \<in> set (?f name) \<Longrightarrow> job_name (fst x) = name"
    using wellFormed_lookup[OF wf] by (auto split: option.splits)
  have lt: "\<forall>x\<in>set (?f a). \<forall>y\<in>set (?f b). jobThenStep x y" if "a < b" for a b
  proof (intro ballI)
    fix x y
    assume "x \<in> set (?f a)" "y \<in> set (?f b)"
    then have "job_name (fst x) = a" "job_name (fst y) = b" by (simp_all add: names)
    with that show "jobThenStep x y" by (simp add: jobThenStep_def)
  qed
  show "sorted_wrt (\<lambda>a b. \<forall>x\<in>set (?f a). \<forall>y\<in>set (?f b). jobThenStep x y) (jobNames rl)"
    by (rule sorted_wrt_mono_rel[OF _ jobNames_strict[OF wf]]) (rule lt)
  show "sorted_wrt jobThenStep (?f a)" for a
  proof (cases "map_of rl a")
    case None
    then show ?thesis by simp
  next
    case (Some j)
    from c have "sorted_wrt (\<lambda>a b. \<not> stepLess b a) (srt stepLess (job_steps j))"
      by (simp add: sort_Slice_contract_def)
    then have "sorted_wrt jobThenStep (map (Pair j) (srt stepLess (job_steps j)))"
      by (simp add: sorted_wrt_map jobThenStep_def stepLess_def not_less)
    with Some show ?thesis by simp
  qed
qed

lemma mset_concat_map_cong:
  "mset xs = mset ys \<Longrightarrow> mset (concat (map f xs)) = mset (concat (map f ys))"
proof -
  assume a: "mset xs = mset ys"
  have "mset (concat (map f zs)) = sum_mset (image_mset (\<lambda>z. mset (f z)) (mset zs))" for zs
    by (induction zs) auto
  with a show ?thesis by simp
qed

lemma visited_mset:
  assumes c: "sort_Slice_contract srt" and wf: "wellFormed rl"
  shows "mset (visited srt rl) = mset (allSteps rl)"
proof -
  let ?f = "\<lambda>name. case map_of rl name of None \<Rightarrow> []
                   | Some j \<Rightarrow> map (Pair j) (srt stepLess (job_steps j))"
  have "mset (visited srt rl) = mset (concat (map ?f (map fst rl)))"
    unfolding visited_def jobNames_def by (rule mset_concat_map_cong) simp
  also have "map ?f (map fst rl) = map (\<lambda>(k, j). map (Pair j) (srt stepLess (job_steps j))) rl"
    using wf by (auto simp: wellFormed_def)
  also have "mset (concat (map (\<lambda>(k, j). map (Pair j) (srt stepLess (job_steps j))) rl)) =
      mset (concat (map (\<lambda>(k, j). map (Pair j) (job_steps j)) rl))"
  proof -
    have eq: "mset (srt stepLess (job_steps j)) = mset (job_steps j)" for j
      using c by (simp add: sort_Slice_contract_def)
    show ?thesis by (induction rl) (auto simp: eq)
  qed
  finally show ?thesis by (simp add: allSteps_def)
qed

lemma archive7_result:
  "readRunLog (ZipArchive archive7) = ([(''build'', \<lparr>job_name = ''build'', job_steps = steps7\<rparr>)], None)"
  by (simp add: archive7_def steps7_def Atoi_def digitVal_def readRunLog_entry_def Split_def Ext_def
        IsPathSeparator_def TrimSuffix_def HasSuffix_def addStep_def Let_def)

lemma gapInsertionSort_steps7:
  "map step_name (gapInsertionSort stepLess steps7) = [''g'', ''b'', ''a'', ''c'', ''d'', ''e'', ''f'']"
  by (simp add: gapInsertionSort_def insertionSort_def gapPass.simps steps7_def stepLess_def)

lemma insertionSort_steps7:
  "map step_name (insertionSort stepLess steps7) = [''g'', ''a'', ''b'', ''c'', ''d'', ''e'', ''f'']"
  by (simp add: insertionSort_def steps7_def stepLess_def)

subsection \<open>Lines that do not fit the buffer of the scanner\<close>

lemma Scan_too_long:
  assumes "MaxScanTokenSize \<le> length line" "CHR 0x0A \<notin> set line"
  shows "Scan (line @ CHR 0x0A # rest) = None" "Scan line = None"
proof -
  have "takeWhile (\<lambda>c. c \<noteq> CHR 0x0A) (line @ CHR 0x0A # rest) = line"
    using assms(2) by (subst takeWhile_append2) auto
  with assms(1) show "Scan (line @ CHR 0x0A # rest) = None"
    by (simp add: Scan_def)
  have tw: "takeWhile (\<lambda>c. c \<noteq> CHR 0x0A) line = line"
    using assms(2) by (auto simp: takeWhile_eq_all_conv)
  show "Scan line = None"
    unfolding Scan_def Let_def tw using assms(1) by simp
qed

lemma scanLines_longLog: "scanLines longLog = []"
proof -
  have "Scan longLog = None"
    unfolding longLog_def
    using Scan_too_long(1)[of "replicate 65536 CHR ''a''" "''done'' @ [CHR 0x0A]"]
    by (simp add: MaxScanTokenSize_def)
  then show ?thesis by (simp add: scanLines.simps)
qed

lemma archiveLong_result:
  "readRunLog (ZipArchive archiveLong) =
     ([(''build'', \<lparr>job_name = ''build'',
          job_steps = [\<lparr>step_order = 1, step_name = ''compile'', step_logs = longLog\<rparr>]\<rparr>)], None)"
  by (simp add: archiveLong_def Atoi_def digitVal_def readRunLog_entry_def Split_def Ext_def
        IsPathSeparator_def TrimSuffix_def HasSuffix_def addStep_def Let_def)

subsection \<open>The scanner and the lines of a log\<close>

lemma logLines_Nil: "logLines [] = []"
  by (simp add: logLines_def)

lemma logLines_no_newline: "s \<noteq> [] \<Longrightarrow> CHR 0x0A \<notin> set s \<Longrightarrow> logLines s = [s]"
  by (simp add: logLines_def strings_Split_no_sep)

lemma logLines_newline:
  assumes "CHR 0x0A \<in> set s"
  shows "logLines s = takeWhile (\<lambda>c. c \<noteq> CHR 0x0A) s
            # logLines (drop (Suc (length (takeWhile (\<lambda>c. c \<noteq> CHR 0x0A) s))) s)"
proof -
  let ?rest = "tl (dropWhile (\<lambda>c. c \<noteq> CHR 0x0A) s)"
  have rest: "drop (Suc (length (takeWhile (\<lambda>c. c \<noteq> CHR 0x0A) s))) s = ?rest"
    by (simp add: dropWhile_eq_drop drop_Suc tl_drop)
  have sp: "strings_Split s (CHR 0x0A) =
      takeWhile (\<lambda>c. c \<noteq> CHR 0x0A) s # strings_Split ?rest (CHR 0x0A)"
    using strings_Split_decompose[of s "CHR 0x0A"] assms by simp
  have ne: "strings_Split ?rest (CHR 0x0A) \<noteq> []" by (rule strings_Split_not_Nil)
  show ?thesis
    unfolding rest using ne by (simp add: logLines_def sp Let_def)
qed

lemma scanLines_logLines:
  "\<forall>l\<in>set (logLines s). length l < MaxScanTokenSize \<Longrightarrow> scanLines s = map dropCR (logLines s)"
proof (induction s rule: scanLines.induct)
  case (1 data)
  show ?case
  proof (cases "data = []")
    case True
    then show ?thesis by (simp add: scanLines.simps Scan_def logLines_Nil)
  next
    case ne: False
    let ?line = "takeWhile (\<lambda>c. c \<noteq> CHR 0x0A) data"
    let ?rest = "drop (Suc (length ?line)) data"
    show ?thesis
    proof (cases "CHR 0x0A \<in> set data")
      case True
      from logLines_newline[OF True] have ll: "logLines data = ?line # logLines ?rest" .
      with "1.prems" have short: "length ?line < MaxScanTokenSize"
        and rest: "\<forall>l\<in>set (logLines ?rest). length l < MaxScanTokenSize"
        by simp_all
      from ne short have sc: "Scan data = Some (dropCR ?line, ?rest)"
        by (simp add: Scan_def Let_def)
      from "1.IH"[OF sc refl rest] have "scanLines ?rest = map dropCR (logLines ?rest)" .
      with sc ll show ?thesis by (subst scanLines.simps) simp
    next
      case False
      then have tw: "?line = data" by (auto simp: takeWhile_eq_all_conv)
      from logLines_no_newline[OF ne False] have ll: "logLines data = [data]" .
      with "1.prems" have short: "length data < MaxScanTokenSize" by simp
      have sc: "Scan data = Some (dropCR data, [])"
        unfolding Scan_def Let_def tw using ne short by simp
      have "scanLines [] = []" by (simp add: scanLines.simps Scan_def)
      with sc ll show ?thesis by (subst scanLines.simps) simp
    qed
  qed
qed

lemma render_short_lines:
  assumes "\<forall>js\<in>set (visited srt rl). \<forall>l\<in>set (logLines (step_logs (snd js))).
             length l < MaxScanTokenSize"
  shows "renderRunLog srt rl =
           concat (map (\<lambda>js. map (\<lambda>l. prefix (fst js) (snd js) @ dropCR l @ [CHR 0x0A])
                                   (logLines (step_logs (snd js))))
                       (visited srt rl))"
proof -
  have "stepLines js = map (\<lambda>l. prefix (fst js) (snd js) @ dropCR l @ [CHR 0x0A])
                           (logLines (step_logs (snd js)))"
    if "js \<in> set (visited srt rl)" for js
    using assms that by (simp add: stepLines_def scanLines_logLines)
  then have "map stepLines (visited srt rl) =
      map (\<lambda>js. map (\<lambda>l. prefix (fst js) (snd js) @ dropCR l @ [CHR 0x0A])
                     (logLines (step_logs (snd js)))) (visited srt rl)"
    by simp
  then show ?thesis unfolding renderRunLog_def by (rule arg_cong)
qed

lemma example_render:
  "renderRunLog insertionSort (fst (readRunLog (ZipArchive archiveExample))) =
     [''alpha'' @ [CHR 0x09] @ ''build'' @ [CHR 0x09] @ ''ok'' @ [CHR 0x0A],
      ''alpha'' @ [CHR 0x09] @ ''test'' @ [CHR 0x09] @ ''fail'' @ [CHR 0x0A],
      ''beta'' @ [CHR 0x09] @ ''build'' @ [CHR 0x09] @ ''ok'' @ [CHR 0x0A]]"
  by (simp add: archiveExample_def Atoi_def digitVal_def readRunLog_entry_def Split_def Ext_def
        IsPathSeparator_def TrimSuffix_def HasSuffix_def addStep_def Let_def
        renderRunLog_def stepLines_def prefix_def scanLines.simps Scan_def
        MaxScanTokenSize_def dropCR_def visited_def jobNames_def insertionSort_def stepLess_def)

lemma Itoa_123: "Itoa 123 = ''123''"
  by (simp add: Itoa_def natDigits.simps)

lemma archiveExample_result:
  "readRunLog (ZipArchive archiveExample) =
     ([(''alpha'', \<lparr>job_name = ''alpha'',
          job_steps = [\<lparr>step_order = 1, step_name = ''build'', step_logs = ''ok'' @ [CHR 0x0A]\<rparr>,
                       \<lparr>step_order = 2, step_name = ''test'', step_logs = ''fail'' @ [CHR 0x0A]\<rparr>]\<rparr>),
       (''beta'', \<lparr>job_name = ''beta'',
          job_steps = [\<lparr>step_order = 1, step_name = ''build'', step_logs = ''ok'' @ [CHR 0x0A]\<rparr>]\<rparr>)],
      None)"
  by (simp add: archiveExample_def Atoi_def digitVal_def readRunLog_entry_def Split_def Ext_def
        IsPathSeparator_def TrimSuffix_def HasSuffix_def addStep_def Let_def)

subsection \<open>The resolution of the target\<close>

lemma RunE_job:
  assumes "JobID opts \<noteq> []" "RunID opts = []" "length args \<le> 1" "\<not> (Web opts \<and> Log opts)"
  shows "RunE opts w args =
     ((if args \<noteq> [] \<and> hd args \<noteq> [] \<and> CanPrompt w then [ErrOut_Warning] else [])
        @ fst (runView opts w),
      snd (runView opts w))"
proof (cases args)
  case Nil
  with assms show ?thesis
    by (auto simp: RunE_def Let_def split: prod.splits)
next
  case (Cons r rs)
  have e: "opts\<lparr>RunID := r\<rparr>\<lparr>RunID := []\<rparr> = opts" "opts\<lparr>RunID := []\<rparr> = opts"
    using assms(2) by simp_all
  show ?thesis
  proof (cases "r = []")
    case True
    with Cons assms show ?thesis
      by (auto simp: RunE_def Let_def e split: prod.splits)
  next
    case False
    with Cons assms show ?thesis
      by (auto simp: RunE_def Let_def e split: prod.splits)
  qed
qed

lemma resolve_job:
  assumes "JobID opts \<noteq> []" "\<not> Prompt opts" "HttpClient w = None" "BaseRepo w = None"
  shows "resolve opts w =
     (case getJob w (JobID opts) of
        Inl err \<Rightarrow> ([Call_getJob (JobID opts)], Inl (Wrap ''failed to get job'' err))
      | Inr j \<Rightarrow>
          (case GetRun w (Itoa (Job_RunID j)) of
             Inl err \<Rightarrow>
               ([Call_getJob (JobID opts), Call_GetRun (Itoa (Job_RunID j))],
                Inl (Wrap ''failed to get run'' err))
           | Inr run \<Rightarrow>
               ([Call_getJob (JobID opts), Call_GetRun (Itoa (Job_RunID j))],
                Inr (run, Some j, []))))"
  using assms
  by (simp add: resolve_def andThen_def fetchSelectedJob_def promptRun_def fetchRun_def
        promptJob_def split: sum.splits)


lemma RunE_prompt:
  assumes "args = []" "JobID opts = []" "CanPrompt w" "RunID opts = []" "\<not> (Web opts \<and> Log opts)"
  shows "RunE opts w args = runView (opts\<lparr>Prompt := True\<rparr>) w"
  using assms by (auto simp: RunE_def Let_def split: prod.splits)

lemma RunE_direct:
  assumes "args = [r]" "JobID opts = []" "\<not> (Web opts \<and> Log opts)"
  shows "RunE opts w args = runView (opts\<lparr>RunID := r\<rparr>) w"
  using assms by (auto simp: RunE_def Let_def split: prod.splits)

lemma runView_prefix: "\<exists>tr. fst (runView opts w) = fst (resolve opts w) @ tr"
  by (cases "resolve opts w") (auto simp: runView_def andFinally_def split: sum.splits prod.splits)

lemma resolve_prompt:
  assumes "JobID opts = []" "Prompt opts" "HttpClient w = None" "BaseRepo w = None"
  shows "\<exists>tr. fst (resolve opts w) = Call_GetRuns 10 # tr"
    and "GetRuns w 10 = Inr runs \<Longrightarrow> \<exists>tr. fst (resolve opts w) = Call_GetRuns 10 # Call_PromptForRun runs # tr"
    and "GetRuns w 10 = Inr runs \<Longrightarrow> PromptForRun w runs = Inr selected \<Longrightarrow>
         \<exists>tr. fst (resolve opts w) =
           Call_GetRuns 10 # Call_PromptForRun runs # Call_GetRun selected # tr"
  using assms
  by (auto simp: resolve_def andThen_def fetchSelectedJob_def promptRun_def fetchRun_def
        split: sum.splits prod.splits)

lemma resolve_direct:
  assumes "JobID opts = []" "\<not> Prompt opts" "HttpClient w = None" "BaseRepo w = None"
  shows "resolve opts w =
     (case GetRun w (RunID opts) of
        Inl err \<Rightarrow> ([Call_GetRun (RunID opts)], Inl (Wrap ''failed to get run'' err))
      | Inr run \<Rightarrow> ([Call_GetRun (RunID opts)], Inr (run, None, [])))"
  using assms
  by (simp add: resolve_def andThen_def fetchSelectedJob_def promptRun_def fetchRun_def
        promptJob_def split: sum.splits)

lemma NewCmdView_prompted:
  assumes "args = []" "flag_job fl = []" "CanPrompt w" "\<not> (flag_web fl \<and> flag_log fl)"
    "HttpClient w = None" "BaseRepo w = None"
  shows "\<exists>tr. fst (NewCmdView fl w args) = Call_GetRuns 10 # tr"
    and "GetRuns w 10 = Inr runs \<Longrightarrow> PromptForRun w runs = Inr selected \<Longrightarrow>
         \<exists>tr. fst (NewCmdView fl w args) =
           Call_GetRuns 10 # Call_PromptForRun runs # Call_GetRun selected # tr"
proof -
  let ?opts = "(flagOptions fl)\<lparr>Prompt := True\<rparr>"
  have o: "JobID ?opts = []" "Prompt ?opts" using assms by (simp_all add: flagOptions_def)
  have n: "NewCmdView fl w args = runView ?opts w"
    using assms RunE_prompt[of args "flagOptions fl" w]
    by (simp add: NewCmdView_def flagOptions_def)
  from runView_prefix[of ?opts w] obtain tr' where
    p: "fst (runView ?opts w) = fst (resolve ?opts w) @ tr'" by blast
  from resolve_prompt(1)[OF o assms(5,6)] p n
  show "\<exists>tr. fst (NewCmdView fl w args) = Call_GetRuns 10 # tr" by auto
  assume "GetRuns w 10 = Inr runs" "PromptForRun w runs = Inr selected"
  from resolve_prompt(3)[OF o assms(5,6) this] p n
  show "\<exists>tr. fst (NewCmdView fl w args) =
           Call_GetRuns 10 # Call_PromptForRun runs # Call_GetRun selected # tr" by auto
qed

lemma NewCmdView_direct:
  assumes "args = [r]" "flag_job fl = []" "\<not> (flag_web fl \<and> flag_log fl)"
    "HttpClient w = None" "BaseRepo w = None"
  shows "\<exists>tr. fst (NewCmdView fl w args) = Call_GetRun r # tr"
proof -
  let ?opts = "(flagOptions fl)\<lparr>RunID := r\<rparr>"
  have o: "JobID ?opts = []" "\<not> Prompt ?opts" "RunID ?opts = r"
    using assms by (simp_all add: flagOptions_def)
  have n: "NewCmdView fl w args = runView ?opts w"
    using assms RunE_direct[of args r "flagOptions fl" w]
    by (simp add: NewCmdView_def flagOptions_def)
  from runView_prefix[of ?opts w] obtain tr' where
    p: "fst (runView ?opts w) = fst (resolve ?opts w) @ tr'" by blast
  have "\<exists>tr. fst (resolve ?opts w) = Call_GetRun r # tr"
    using resolve_direct[OF o(1,2) assms(4,5)] o(3) by (auto split: sum.splits)
  with p n show ?thesis by auto
qed

lemma NewCmdView_job:
  assumes "flag_job fl \<noteq> []" "length args \<le> 1" "\<not> (flag_web fl \<and> flag_log fl)"
    "HttpClient w = None" "BaseRepo w = None"
  shows "\<exists>tr. fst (NewCmdView fl w args) = Call_getJob (flag_job fl) # tr
            \<or> fst (NewCmdView fl w args) = ErrOut_Warning # Call_getJob (flag_job fl) # tr"
proof -
  let ?opts = "flagOptions fl"
  have o: "JobID ?opts \<noteq> []" "RunID ?opts = []" "\<not> (Web ?opts \<and> Log ?opts)" "\<not> Prompt ?opts"
    "JobID ?opts = flag_job fl"
    using assms by (simp_all add: flagOptions_def)
  have n: "fst (NewCmdView fl w args) =
      (if args \<noteq> [] \<and> hd args \<noteq> [] \<and> CanPrompt w then [ErrOut_Warning] else [])
        @ fst (runView ?opts w)"
    using RunE_job[OF o(1,2) assms(2) o(3), of w] assms(2) by (simp add: NewCmdView_def)
  from runView_prefix[of ?opts w] obtain tr' where
    p: "fst (runView ?opts w) = fst (resolve ?opts w) @ tr'" by blast
  have "\<exists>tr. fst (resolve ?opts w) = Call_getJob (flag_job fl) # tr"
    using resolve_job[OF o(1,4) assms(4,5)] o(5) by (auto split: sum.splits)
  with p n show ?thesis by auto
qed

subsection \<open>The exit status on the two log paths\<close>

text \<open>
  When everything the paths need succeeds, the path for the log of one job ends with
  \<open>SilentError\<close> exactly when \<open>--exit-status\<close> is set and the conclusion of the job
  is a failure state, and the path for the log of the run ends without an error
  whatever the flag and the conclusion are.
\<close>

lemma job_log_exit_status:
  assumes "Job_Status j = Completed" "getJobLog w (Job_ID j) = Inr r"
    "StartPager w = None" "Copy w r = None"
  shows "snd (viewJobLog opts w j) =
           (if ExitStatus opts \<and> IsFailureState w (Job_Conclusion j) then Some SilentError
            else None)"
  using assms by (simp add: viewJobLog_def)

lemma run_log_exit_status:
  assumes "Run_Status run = Completed" "getRunLog w (Run_ID run) = Inr rlz"
    "snd (readRunLog rlz) = None" "StartPager w = None"
  shows "snd (viewRunLog w run) = None"
  using assms
  by (cases "readRunLog rlz") (simp add: viewRunLog_def displayRunLog_def)

subsection \<open>Archives of skipped entries only\<close>

lemma loop_skipped:
  "\<forall>zf\<in>set files. \<not> notSkipped zf \<Longrightarrow> readRunLog_loop rl files = (rl, None)"
  by (induction files arbitrary: rl) (simp_all add: entry_cases)

lemma only_skipped_entries:
  "\<forall>zf\<in>set files. \<not> notSkipped zf \<Longrightarrow> readRunLog (ZipArchive files) = ([], None)"
  by (simp add: loop_skipped)

subsection \<open>An invalid entry after readable ones\<close>


subsection \<open>What the map holds after a pass over the archive\<close>

lemma map_of_addStep_same:
  "map_of (addStep rl k st) k =
     Some \<lparr>job_name = (case map_of rl k of None \<Rightarrow> k | Some j \<Rightarrow> job_name j),
           job_steps = stepsOf rl k @ [st]\<rparr>"
  by (cases "map_of rl k") (simp_all add: addStep_def stepsOf_def update_conv' map_add_def)

lemma map_of_addStep_other:
  "name \<noteq> k \<Longrightarrow> map_of (addStep rl k st) name = map_of rl name"
  by (cases "map_of rl k")
     (auto simp: addStep_def update_conv' map_add_def split: option.splits)

lemma stepsOf_addStep:
  "stepsOf (addStep rl k st) name = stepsOf rl name @ (if name = k then [st] else [])"
  using map_of_addStep_same[of rl k st] map_of_addStep_other[of name k rl st]
  by (auto simp: stepsOf_def)

lemma keys_addStep: "fst ` set (addStep rl k st) = insert k (fst ` set rl)"
proof (cases "map_of rl k")
  case None
  then show ?thesis by (auto simp: addStep_def)
next
  case (Some j)
  then have "k \<in> fst ` set rl" by (metis map_of_eq_None_iff option.distinct(1))
  moreover have "fst ` set (AList.update k v rl) = insert k (fst ` set rl)" for v
    using dom_update[of k v rl] by (simp add: dom_map_of_conv_image_fst)
  ultimately show ?thesis using Some by (simp add: addStep_def)
qed

lemma Split_dir_last:
  assumes "fst (Split p) \<noteq> []"
  shows "last (fst (Split p)) = CHR ''/''"
proof -
  let ?P = "\<lambda>c. \<not> IsPathSeparator c"
  have d: "fst (Split p) = rev (dropWhile ?P (rev p))"
  proof -
    have "rev p = takeWhile ?P (rev p) @ dropWhile ?P (rev p)" by simp
    then have "p = rev (dropWhile ?P (rev p)) @ rev (takeWhile ?P (rev p))"
      by (metis rev_append rev_rev_ident)
    then have "take (length p - length (rev (takeWhile ?P (rev p)))) p = rev (dropWhile ?P (rev p))"
      by (metis append_eq_conv_conj length_append add_diff_cancel_right')
    then show ?thesis by (simp add: Split_def Let_def)
  qed
  with assms have ne: "dropWhile ?P (rev p) \<noteq> []" by simp
  then have "\<not> ?P (hd (dropWhile ?P (rev p)))" by (rule hd_dropWhile)
  then have "hd (dropWhile ?P (rev p)) = CHR ''/''" by (simp add: IsPathSeparator_def)
  with ne d show ?thesis by (simp add: last_rev)
qed

lemma notSkipped_job: "notSkipped zf \<Longrightarrow> TrimSuffix (fst (Split (Name zf))) ''/'' = jobOf zf"
proof -
  assume "notSkipped zf"
  then have ne: "fst (Split (Name zf)) \<noteq> []" by (simp add: notSkipped_def)
  from Split_dir_last[OF ne] ne
  have "fst (Split (Name zf)) = butlast (fst (Split (Name zf))) @ ''/''"
    by (metis append_butlast_last_id)
  then show ?thesis
    unfolding jobOf_def by (metis TrimSuffix_append)
qed

lemma notSkipped_step_name:
  assumes "notSkipped zf" "count_list (baseName zf) CHR ''_'' = 1"
  shows "TrimSuffix (tl (dropWhile (\<lambda>c. c \<noteq> CHR ''_'') (snd (Split (Name zf))))) ''.txt'' =
         tl (dropWhile (\<lambda>c. c \<noteq> CHR ''_'') (baseName zf))"
proof -
  let ?P = "\<lambda>c. c \<noteq> CHR ''_''"
  from assms(2) have m: "CHR ''_'' \<in> set (baseName zf)"
    using count_list_0[of "baseName zf" "CHR ''_''"] by auto
  then have ne: "dropWhile ?P (baseName zf) \<noteq> []" by (simp add: dropWhile_eq_Nil_conv)
  have "dropWhile ?P (baseName zf @ ''.txt'') = dropWhile ?P (baseName zf) @ ''.txt''"
    using m by (simp add: dropWhile_append1)
  with ne have "tl (dropWhile ?P (baseName zf @ ''.txt'')) = tl (dropWhile ?P (baseName zf)) @ ''.txt''"
    by simp
  then show ?thesis
    using notSkipped_file[OF assms(1)] by (simp add: TrimSuffix_append)
qed

lemma entry_accepted:
  assumes "notSkipped zf" "readRunLog_entry rl zf = Inr rl'"
  shows "rl' = addStep rl (jobOf zf) (stepOf zf)"
proof -
  from assms have c: "count_list (snd (Split (Name zf))) CHR ''_'' = 1"
    by (auto simp: entry_cases split: if_splits)
  then have cb: "count_list (baseName zf) CHR ''_'' = 1"
    using notSkipped_count[OF assms(1)] by simp
  from assms c obtain n logs where
    n: "Atoi (orderToken (snd (Split (Name zf)))) = Some n" and
    l: "readZipFile zf = Inr logs" and
    r: "rl' = addStep rl (TrimSuffix (fst (Split (Name zf))) ''/'')
              \<lparr>step_order = n,
               step_name = TrimSuffix (tl (dropWhile (\<lambda>c. c \<noteq> CHR ''_'')
                              (snd (Split (Name zf))))) ''.txt'',
               step_logs = logs\<rparr>"
    by (auto simp: entry_cases split: if_splits option.splits sum.splits)
  from n have "n = tokenValue (orderToken (baseName zf))"
    using notSkipped_token[OF assms(1) cb] by (simp add: Atoi_spec split: if_splits)
  with r l show ?thesis
    by (simp add: stepOf_def notSkipped_job[OF assms(1)] notSkipped_step_name[OF assms(1) cb])
qed

lemma entry_steps:
  assumes "readRunLog_entry rl zf = Inr rl'"
  shows "stepsOf rl' name = stepsOf rl name @ stepsIn [zf] name"
    and "fst ` set rl' = fst ` set rl \<union> jobsIn [zf]"
proof -
  show "stepsOf rl' name = stepsOf rl name @ stepsIn [zf] name"
  proof (cases "notSkipped zf")
    case True
    from entry_accepted[OF True assms] show ?thesis
      using True by (auto simp: stepsOf_addStep stepsIn_def)
  next
    case False
    with assms show ?thesis by (simp add: entry_cases stepsIn_def)
  qed
  show "fst ` set rl' = fst ` set rl \<union> jobsIn [zf]"
  proof (cases "notSkipped zf")
    case True
    from entry_accepted[OF True assms] show ?thesis
      using True by (auto simp: keys_addStep jobsIn_def)
  next
    case False
    with assms show ?thesis by (auto simp: entry_cases jobsIn_def)
  qed
qed

lemma stepsIn_Cons: "stepsIn (zf # files) name = stepsIn [zf] name @ stepsIn files name"
  by (simp add: stepsIn_def)

lemma jobsIn_Cons: "jobsIn (zf # files) = jobsIn [zf] \<union> jobsIn files"
  by (auto simp: jobsIn_def)

lemma loop_steps:
  "readRunLog_loop rl files = (rl', None) \<Longrightarrow>
   stepsOf rl' name = stepsOf rl name @ stepsIn files name
   \<and> fst ` set rl' = fst ` set rl \<union> jobsIn files"
proof (induction files arbitrary: rl)
  case Nil
  then show ?case by (simp add: stepsIn_def jobsIn_def)
next
  case (Cons zf files)
  show ?case
  proof (cases "readRunLog_entry rl zf")
    case (Inl e)
    with Cons.prems show ?thesis by simp
  next
    case (Inr rl1)
    with Cons.prems have "readRunLog_loop rl1 files = (rl', None)" by simp
    from Cons.IH[OF this] entry_steps(1)[OF Inr, of name] entry_steps(2)[OF Inr] show ?thesis
      using stepsIn_Cons[of zf files name] jobsIn_Cons[of zf files] by auto
  qed
qed

subsection \<open>Entries that pass and the entry that fails\<close>


lemma entry_passes:
  assumes "passes zf"
  shows "\<exists>rl'. readRunLog_entry rl zf = Inr rl'"
proof (cases "notSkipped zf")
  case False
  then show ?thesis by (simp add: entry_cases)
next
  case True
  with assms have v: "validName zf" and r: "readable zf" by (simp_all add: passes_def)
  from r obtain logs where "readZipFile zf = Inr logs"
    by (auto simp: readable_def split: sum.splits)
  with True v show ?thesis
    by (simp add: entry_cases validName_def Atoi_spec notSkipped_count notSkipped_token)
qed

lemma entry_fails:
  "readRunLog_entry rl zf = Inl err \<Longrightarrow> \<not> passes zf"
  using entry_passes[of zf rl] by auto

lemma loop_passes:
  "\<forall>z\<in>set files. passes z \<Longrightarrow> snd (readRunLog_loop rl files) = None"
proof (induction files arbitrary: rl)
  case Nil
  then show ?case by simp
next
  case (Cons x xs)
  from Cons.prems have "passes x" by simp
  from entry_passes[OF this, of rl] obtain rl' where "readRunLog_entry rl x = Inr rl'" by blast
  with Cons show ?case by simp
qed

lemma loop_passes_steps:
  assumes "\<forall>z\<in>set files. passes z"
  shows "stepsOf (fst (readRunLog_loop rl files)) name = stepsOf rl name @ stepsIn files name"
    and "fst ` set (fst (readRunLog_loop rl files)) = fst ` set rl \<union> jobsIn files"
proof -
  have "readRunLog_loop rl files = (fst (readRunLog_loop rl files), None)"
    using loop_passes[OF assms, of rl] by (cases "readRunLog_loop rl files") simp
  from loop_steps[OF this]
  show "stepsOf (fst (readRunLog_loop rl files)) name = stepsOf rl name @ stepsIn files name"
    and "fst ` set (fst (readRunLog_loop rl files)) = fst ` set rl \<union> jobsIn files"
    by simp_all
qed


lemma loop_failure_passes:
  "snd (readRunLog_loop rl files) = Some err \<Longrightarrow>
   \<exists>pre bad post. files = pre @ bad # post \<and> (\<forall>z\<in>set pre. passes z) \<and> \<not> passes bad"
proof (induction files arbitrary: rl)
  case Nil
  then show ?case by simp
next
  case (Cons x xs)
  show ?case
  proof (cases "readRunLog_entry rl x")
    case (Inl e)
    then have "\<not> passes x" by (rule entry_fails)
    then have "x # xs = [] @ x # xs \<and> (\<forall>z\<in>set []. passes z) \<and> \<not> passes x" by simp
    then show ?thesis by blast
  next
    case (Inr rl')
    with Cons.prems have "snd (readRunLog_loop rl' xs) = Some err" by simp
    from Cons.IH[OF this] obtain pre bad post where
      h: "xs = pre @ bad # post" "\<forall>z\<in>set pre. passes z" "\<not> passes bad" by blast
    show ?thesis
    proof (cases "passes x")
      case True
      with h have "x # xs = (x # pre) @ bad # post \<and> (\<forall>z\<in>set (x # pre). passes z) \<and> \<not> passes bad"
        by simp
      then show ?thesis by blast
    next
      case False
      then have "x # xs = [] @ x # xs \<and> (\<forall>z\<in>set []. passes z) \<and> \<not> passes x" by simp
      then show ?thesis by blast
    qed
  qed
qed



subsection \<open>The archive that fails after three steps\<close>






subsection \<open>Entries whose underscore stands before the extension\<close>

lemma isNumeric_chars:
  assumes "isNumeric n"
  shows "CHR ''/'' \<notin> set n" "CHR ''_'' \<notin> set n" "n \<noteq> []"
proof -
  have d: "list_all isDigit r \<Longrightarrow> CHR ''/'' \<notin> set r \<and> CHR ''_'' \<notin> set r" for r
    by (induction r) (auto simp: isDigit_def)
  from assms show "n \<noteq> []" by (auto simp: isNumeric_def)
  from assms obtain c r where n: "n = c # r" by (cases n) (auto simp: isNumeric_def)
  show "CHR ''/'' \<notin> set n"
  proof (cases "c = CHR ''-'' \<or> c = CHR ''+''")
    case True
    with assms n d[of r] show ?thesis by (auto simp: isNumeric_def)
  next
    case False
    with assms n d[of n] show ?thesis by (simp add: isNumeric_def)
  qed
  show "CHR ''_'' \<notin> set n"
  proof (cases "c = CHR ''-'' \<or> c = CHR ''+''")
    case True
    with assms n d[of r] show ?thesis by (auto simp: isNumeric_def)
  next
    case False
    with assms n d[of n] show ?thesis by (simp add: isNumeric_def)
  qed
qed

lemma empty_name_entry:
  assumes "isNumeric n"
  shows "notSkipped \<lparr>Name = job @ ''/'' @ n @ ''_.txt'', readZipFile = p\<rparr>"
    and "baseName \<lparr>Name = job @ ''/'' @ n @ ''_.txt'', readZipFile = p\<rparr> = n @ ''_''"
    and "jobOf \<lparr>Name = job @ ''/'' @ n @ ''_.txt'', readZipFile = p\<rparr> = job"
proof -
  let ?zf = "\<lparr>Name = job @ ''/'' @ n @ ''_.txt'', readZipFile = p\<rparr>"
  have sp: "Split (Name ?zf) = (job @ ''/'', n @ ''_.txt'')"
    using Split_append[of "n @ ''_.txt''" job] isNumeric_chars(1)[OF assms] by simp
  have ext: "Ext (Name ?zf) = ''.txt''"
    using Ext_txt[of "job @ ''/'' @ n @ ''_''"] by simp
  from sp ext show "notSkipped ?zf" by (simp add: notSkipped_def)
  from sp show "baseName ?zf = n @ ''_''"
    using TrimSuffix_append[of "n @ ''_''" "''.txt''"] by (simp add: baseName_def)
  from sp show "jobOf ?zf = job" by (simp add: jobOf_def butlast_append)
qed

lemma empty_name_step:
  assumes "isNumeric n" "fitsInt (tokenValue n)"
  shows "validName \<lparr>Name = job @ ''/'' @ n @ ''_.txt'', readZipFile = p\<rparr>"
    and "stepOf \<lparr>Name = job @ ''/'' @ n @ ''_.txt'', readZipFile = Inr logs\<rparr> =
           \<lparr>step_order = tokenValue n, step_name = [], step_logs = logs\<rparr>"
proof -
  have u: "CHR ''_'' \<notin> set n" by (rule isNumeric_chars(2)[OF assms(1)])
  have tw: "takeWhile (\<lambda>c. c \<noteq> CHR ''_'') (n @ ''_'') = n"
    using u by (subst takeWhile_append2) auto
  have dw: "dropWhile (\<lambda>c. c \<noteq> CHR ''_'') (n @ ''_'') = ''_''"
    using u by (subst dropWhile_append2) auto
  have cnt: "count_list (n @ ''_'') CHR ''_'' = 1"
    using u by (simp add: count_list_0)
  show "validName \<lparr>Name = job @ ''/'' @ n @ ''_.txt'', readZipFile = p\<rparr>"
    unfolding validName_def empty_name_entry(2)[OF assms(1)] orderToken_def tw
    using assms cnt by simp
  show "stepOf \<lparr>Name = job @ ''/'' @ n @ ''_.txt'', readZipFile = Inr logs\<rparr> =
           \<lparr>step_order = tokenValue n, step_name = [], step_logs = logs\<rparr>"
    unfolding stepOf_def empty_name_entry(2)[OF assms(1)] orderToken_def tw dw
    by simp
qed

lemma archiveEmptyNames_result:
  "readRunLog (ZipArchive archiveEmptyNames) =
     ([(''alpha'', \<lparr>job_name = ''alpha'',
          job_steps = [\<lparr>step_order = 1, step_name = ''build'', step_logs = ''ok''\<rparr>,
                       \<lparr>step_order = 2, step_name = [], step_logs = ''two''\<rparr>]\<rparr>),
       (''beta'', \<lparr>job_name = ''beta'',
          job_steps = [\<lparr>step_order = 1, step_name = ''build'', step_logs = ''ok''\<rparr>]\<rparr>),
       (''gamma'', \<lparr>job_name = ''gamma'',
          job_steps = [\<lparr>step_order = 3, step_name = [], step_logs = ''three''\<rparr>]\<rparr>)],
      None)"
  by (simp add: archiveEmptyNames_def Atoi_def digitVal_def readRunLog_entry_def Split_def Ext_def
        IsPathSeparator_def TrimSuffix_def HasSuffix_def addStep_def Let_def)

lemma numeric_2: "isNumeric ''2'' \<and> fitsInt (tokenValue ''2'') \<and> tokenValue ''2'' = 2"
  by (simp add: isNumeric_def isDigit_def tokenValue_def decimalValue_def fitsInt_def)

lemma numeric_3: "isNumeric ''3'' \<and> fitsInt (tokenValue ''3'') \<and> tokenValue ''3'' = 3"
  by (simp add: isNumeric_def isDigit_def tokenValue_def decimalValue_def fitsInt_def)

subsection \<open>The prompted target\<close>



section \<open>The claims of the spec\<close>

text \<open>
  C2, as amended. The file name of an entry that is not skipped is split at every
  underscore, not at the first one only. The entry is accepted exactly when the name
  has one underscore and \<open>Atoi\<close> accepts the token before it; the step name is then
  what follows the underscore, without \<open>.txt\<close>. Every other entry is refused with
  \<open>InvalidStepFilename\<close> (the payload is taken to be readable here).
\<close>

theorem file_name_split_at_every_underscore:
  assumes "notSkipped zf" "readZipFile zf = Inr logs"
  shows "readRunLog_entry rl zf =
     (if count_list (snd (Split (Name zf))) CHR ''_'' = 1
         \<and> Atoi (orderToken (snd (Split (Name zf)))) \<noteq> None
      then Inr (addStep rl (TrimSuffix (fst (Split (Name zf))) ''/'')
                  \<lparr>step_order = the (Atoi (orderToken (snd (Split (Name zf))))),
                   step_name = TrimSuffix (tl (dropWhile (\<lambda>c. c \<noteq> CHR ''_'')
                                  (snd (Split (Name zf))))) ''.txt'',
                   step_logs = logs\<rparr>)
      else Inl InvalidStepFilename)"
  using assms by (auto simp: entry_cases)

theorem file_name_split_at_every_underscore_witness:
  "notSkipped \<lparr>Name = ''job/1_step.txt'', readZipFile = Inr ''x''\<rparr>
   \<and> readRunLog_entry [] \<lparr>Name = ''job/1_step.txt'', readZipFile = Inr ''x''\<rparr> =
       Inr [(''job'', \<lparr>job_name = ''job'',
               job_steps = [\<lparr>step_order = 1, step_name = ''step'', step_logs = ''x''\<rparr>]\<rparr>)]"
proof -
  have h: "notSkipped \<lparr>Name = ''job/1_step.txt'', readZipFile = Inr ''x''\<rparr>"
    by (simp add: notSkipped_def Split_def Ext_def IsPathSeparator_def)
  show ?thesis
    using h file_name_split_at_every_underscore
            [OF h, of "''x''" "[]"]
    by (simp add: Split_def IsPathSeparator_def orderToken_def Atoi_def digitVal_def
          TrimSuffix_def HasSuffix_def addStep_def)
qed

text \<open>
  C2 as stated fails: \<open>job/1_step_name.txt\<close> has a valid order token, and the archive
  holding it is refused with \<open>InvalidStepFilename\<close>, since the split gives three parts.
\<close>

theorem step_name_with_underscores_counterexample:
  "Atoi ''1'' = Some 1
   \<and> readRunLog (ZipArchive [\<lparr>Name = ''job/1_step_name.txt'', readZipFile = Inr ''x''\<rparr>]) =
       ([], Some InvalidStepFilename)"
  by (simp add: Atoi_def digitVal_def readRunLog_entry_def Split_def Ext_def IsPathSeparator_def)

text \<open>
  C4, as amended. The order token is read by \<open>Atoi\<close> as a signed integer: for an entry
  that is not skipped and has one underscore, the entry is accepted exactly when the
  token is decimal digits after an optional sign and its value fits \<open>int\<close>; the step
  is stored with that value as its order, so a token with a minus sign gives a
  negative order. Every other token is refused with \<open>InvalidStepFilename\<close>.
\<close>

theorem order_token_is_signed_integer:
  assumes "notSkipped zf" "count_list (snd (Split (Name zf))) CHR ''_'' = 1"
  shows "readRunLog_entry rl zf =
     (if isNumeric (orderToken (snd (Split (Name zf))))
         \<and> fitsInt (tokenValue (orderToken (snd (Split (Name zf)))))
      then (case readZipFile zf of
              Inl err \<Rightarrow> Inl err
            | Inr logs \<Rightarrow>
                Inr (addStep rl (TrimSuffix (fst (Split (Name zf))) ''/'')
                       \<lparr>step_order = tokenValue (orderToken (snd (Split (Name zf)))),
                        step_name = TrimSuffix (tl (dropWhile (\<lambda>c. c \<noteq> CHR ''_'')
                                       (snd (Split (Name zf))))) ''.txt'',
                        step_logs = logs\<rparr>))
      else Inl InvalidStepFilename)"
  using assms by (simp add: entry_cases Atoi_spec)

theorem order_token_is_signed_integer_witness:
  "notSkipped \<lparr>Name = ''job/-1_x.txt'', readZipFile = Inr ''log''\<rparr>
   \<and> count_list (snd (Split (Name \<lparr>Name = ''job/-1_x.txt'', readZipFile = Inr ''log''\<rparr>))) CHR ''_'' = 1
   \<and> isNumeric ''-1'' \<and> tokenValue ''-1'' = - 1
   \<and> readRunLog_entry [] \<lparr>Name = ''job/-1_x.txt'', readZipFile = Inr ''log''\<rparr> =
       Inr [(''job'', \<lparr>job_name = ''job'',
               job_steps = [\<lparr>step_order = - 1, step_name = ''x'', step_logs = ''log''\<rparr>]\<rparr>)]"
proof -
  let ?zf = "\<lparr>Name = ''job/-1_x.txt'', readZipFile = Inr ''log''\<rparr>"
  have h: "notSkipped ?zf"
    by (simp add: notSkipped_def Split_def Ext_def IsPathSeparator_def)
  have c: "count_list (snd (Split (Name ?zf))) CHR ''_'' = 1"
    by (simp add: Split_def IsPathSeparator_def)
  have n: "isNumeric ''-1''" by (simp add: isNumeric_def isDigit_def)
  have v: "tokenValue ''-1'' = - 1" by (simp add: tokenValue_def decimalValue_def)
  have f: "fitsInt (- 1)" by (simp add: fitsInt_def)
  have e: "readRunLog_entry [] ?zf =
       Inr [(''job'', \<lparr>job_name = ''job'',
               job_steps = [\<lparr>step_order = - 1, step_name = ''x'', step_logs = ''log''\<rparr>]\<rparr>)]"
    using order_token_is_signed_integer [OF h c, of "[]"] n v f
    by (simp add: Split_def IsPathSeparator_def orderToken_def TrimSuffix_def HasSuffix_def
          addStep_def)
  from h c n v e show ?thesis by blast
qed

text \<open>
  C4 as stated fails: the token \<open>-1\<close> is accepted, and the archive parses to a step of
  order \<open>-1\<close>.
\<close>

theorem negative_order_token_counterexample:
  "readRunLog (ZipArchive [\<lparr>Name = ''job/-1_x.txt'', readZipFile = Inr ''log''\<rparr>]) =
     ([(''job'', \<lparr>job_name = ''job'',
          job_steps = [\<lparr>step_order = - 1, step_name = ''x'', step_logs = ''log''\<rparr>]\<rparr>)], None)"
  by (simp add: Atoi_def digitVal_def readRunLog_entry_def Split_def Ext_def IsPathSeparator_def
        TrimSuffix_def HasSuffix_def addStep_def Let_def)

text \<open>
  C5, as amended. For every archive and every sorting routine that keeps the
  library's promise for \<open>sort.Slice\<close>, the renderer goes through the jobs in ascending
  order of their names and, within a job, through the steps in ascending order of
  their \<open>order\<close> field, and it goes through every step of the map once; the lines of a
  step are printed when the step is reached. Nothing is promised about two steps of
  one job with equal order: \<open>sort.Slice\<close> is not a stable sort.
\<close>

theorem rendering_order:
  assumes "sort_Slice_contract srt"
  shows "sorted_wrt jobThenStep (visited srt (fst (readRunLog rlz)))
       \<and> mset (visited srt (fst (readRunLog rlz))) = mset (allSteps (fst (readRunLog rlz)))
       \<and> renderRunLog srt (fst (readRunLog rlz)) =
           concat (map stepLines (visited srt (fst (readRunLog rlz))))"
  using visited_sorted[OF assms wellFormed_readRunLog]
    visited_mset[OF assms wellFormed_readRunLog]
  by (simp add: renderRunLog_def)

theorem rendering_order_witness:
  "sort_Slice_contract gapInsertionSort
   \<and> sorted_wrt jobThenStep (visited gapInsertionSort (fst (readRunLog (ZipArchive archive7))))
   \<and> mset (visited gapInsertionSort (fst (readRunLog (ZipArchive archive7)))) =
       mset (allSteps (fst (readRunLog (ZipArchive archive7))))
   \<and> map (\<lambda>js. step_order (snd js)) (visited gapInsertionSort (fst (readRunLog (ZipArchive archive7)))) =
       [1, 2, 2, 3, 3, 3, 3]"
proof -
  have o: "map (\<lambda>js. step_order (snd js))
      (visited gapInsertionSort (fst (readRunLog (ZipArchive archive7)))) = [1, 2, 2, 3, 3, 3, 3]"
    using archive7_result
    by (simp add: visited_def jobNames_def gapInsertionSort_def insertionSort_def gapPass.simps
          steps7_def stepLess_def)
  show ?thesis
    using o gapInsertionSort_contract
      rendering_order [OF gapInsertionSort_contract, of "ZipArchive archive7"]
    by blast
qed

text \<open>
  C5 as stated fails where it says that the sort is stable. \<open>gapInsertionSort\<close> keeps
  the promise of \<open>sort.Slice\<close> (lemma \<open>gapInsertionSort_contract\<close>) and is what the
  library ran on a slice of seven elements up to Go 1.18. In \<open>archive7\<close> the steps \<open>a\<close>
  and \<open>b\<close> have the order 2 and \<open>a\<close> is parsed first; the renderer reaches \<open>b\<close> before
  \<open>a\<close>, and prints their lines in that order.
\<close>

theorem unstable_step_order_counterexample:
  "map step_name (job_steps (snd (hd (fst (readRunLog (ZipArchive archive7)))))) =
     [''a'', ''b'', ''c'', ''d'', ''e'', ''f'', ''g'']
   \<and> map (\<lambda>js. step_name (snd js))
         (visited gapInsertionSort (fst (readRunLog (ZipArchive archive7)))) =
     [''g'', ''b'', ''a'', ''c'', ''d'', ''e'', ''f'']
   \<and> take 3 (renderRunLog gapInsertionSort (fst (readRunLog (ZipArchive archive7)))) =
     [''build'' @ [CHR 0x09] @ ''g'' @ [CHR 0x09] @ ''x'' @ [CHR 0x0A],
      ''build'' @ [CHR 0x09] @ ''b'' @ [CHR 0x09] @ ''x'' @ [CHR 0x0A],
      ''build'' @ [CHR 0x09] @ ''a'' @ [CHR 0x09] @ ''x'' @ [CHR 0x0A]]"
  using archive7_result
  by (simp add: renderRunLog_def stepLines_def prefix_def scanLines.simps Scan_def
        MaxScanTokenSize_def dropCR_def visited_def jobNames_def gapInsertionSort_def
        insertionSort_def gapPass.simps steps7_def stepLess_def)

text \<open>
  C6 holds of the code only while every line of a log is shorter than
  \<open>MaxScanTokenSize\<close> (64 KiB). Here the log of the one step has a first line of
  65536 bytes and a second line \<open>done\<close>: the archive is well formed and parses, the
  scanner gives up on the first line, the loop of \<open>displayRunLog\<close> ends without
  looking at \<open>scanner.Err()\<close>, and the command prints no line for the step and ends
  without an error, where the spec has two lines.
\<close>

theorem long_line_ends_step_output:
  "readRunLog (ZipArchive archiveLong) =
     ([(''build'', \<lparr>job_name = ''build'',
          job_steps = [\<lparr>step_order = 1, step_name = ''compile'', step_logs = longLog\<rparr>]\<rparr>)], None)
   \<and> renderRunLog insertionSort (fst (readRunLog (ZipArchive archiveLong))) = []
   \<and> runView optsLog123 worldLong =
       ([Call_GetRun ''123'', Call_getRunLog 123, Call_StartPager], None)"
proof -
  have r: "renderRunLog insertionSort (fst (readRunLog (ZipArchive archiveLong))) = []"
    using archiveLong_result
    by (simp add: renderRunLog_def visited_def jobNames_def insertionSort_def stepLines_def
          scanLines_longLog)
  have v: "runView optsLog123 worldLong =
       ([Call_GetRun ''123'', Call_getRunLog 123, Call_StartPager], None)"
    using archiveLong_result r
    by (simp add: runView_def andFinally_def resolve_def andThen_def fetchSelectedJob_def
          promptRun_def fetchRun_def promptJob_def viewRunLog_def displayRunLog_def
          optsLog123_def worldLong_def world0_def run123_def)
  from archiveLong_result r v show ?thesis by blast
qed

text \<open>
  C1 fails on the run log path. With \<open>gh run view 123 --log --exit-status\<close>, run
  123 completed with the conclusion failure (a failure state) and the example archive
  of the spec as its log, the command prints the three lines and returns \<open>nil\<close>: the
  exit code is 0, where the spec has a code other than 0. The branch ends with
  \<open>return displayRunLog(opts.IO, runLog)\<close> and never looks at \<open>opts.ExitStatus\<close>.
  The branch for the log of one job, next to it, does: with
  \<open>gh run view --job 456 --log --exit-status\<close> and a failed job the command returns
  \<open>SilentError\<close>.
\<close>

theorem run_log_ignores_exit_status:
  "flag_exit_status flagsLogExit
   \<and> IsFailureState worldExample (Run_Conclusion run123)
   \<and> NewCmdView flagsLogExit worldExample [''123''] =
       ([Call_GetRun ''123'', Call_getRunLog 123, Call_StartPager,
         Out_Line (''alpha'' @ [CHR 0x09] @ ''build'' @ [CHR 0x09] @ ''ok'' @ [CHR 0x0A]),
         Out_Line (''alpha'' @ [CHR 0x09] @ ''test'' @ [CHR 0x09] @ ''fail'' @ [CHR 0x0A]),
         Out_Line (''beta'' @ [CHR 0x09] @ ''build'' @ [CHR 0x09] @ ''ok'' @ [CHR 0x0A])],
        None)
   \<and> exitCode (NewCmdView flagsLogExit worldExample [''123'']) = 0
   \<and> NewCmdView flagsJobLogExit worldExample [] =
       ([Call_getJob ''456'', Call_GetRun ''123'', Call_getJobLog 456, Call_StartPager,
         Out_Copy (''fail'' @ [CHR 0x0A])],
        Some SilentError)
   \<and> exitCode (NewCmdView flagsJobLogExit worldExample []) = 1"
proof -
  have a: "flag_exit_status flagsLogExit \<and> IsFailureState worldExample (Run_Conclusion run123)"
    by (simp add: flagsLogExit_def worldExample_def world0_def run123_def)
  have v: "viewRunLog worldExample run123 =
       ([Call_getRunLog 123, Call_StartPager,
         Out_Line (''alpha'' @ [CHR 0x09] @ ''build'' @ [CHR 0x09] @ ''ok'' @ [CHR 0x0A]),
         Out_Line (''alpha'' @ [CHR 0x09] @ ''test'' @ [CHR 0x09] @ ''fail'' @ [CHR 0x0A]),
         Out_Line (''beta'' @ [CHR 0x09] @ ''build'' @ [CHR 0x09] @ ''ok'' @ [CHR 0x0A])],
        None)"
    using archiveExample_result example_render
    by (simp add: viewRunLog_def displayRunLog_def worldExample_def world0_def run123_def)
  have b: "NewCmdView flagsLogExit worldExample [''123''] =
       ([Call_GetRun ''123'', Call_getRunLog 123, Call_StartPager,
         Out_Line (''alpha'' @ [CHR 0x09] @ ''build'' @ [CHR 0x09] @ ''ok'' @ [CHR 0x0A]),
         Out_Line (''alpha'' @ [CHR 0x09] @ ''test'' @ [CHR 0x09] @ ''fail'' @ [CHR 0x0A]),
         Out_Line (''beta'' @ [CHR 0x09] @ ''build'' @ [CHR 0x09] @ ''ok'' @ [CHR 0x0A])],
        None)"
    using v
    by (simp add: NewCmdView_def RunE_def flagOptions_def flagsLogExit_def Let_def
          runView_def andFinally_def resolve_def andThen_def fetchSelectedJob_def
          promptRun_def fetchRun_def promptJob_def worldExample_def world0_def)
  have c: "NewCmdView flagsJobLogExit worldExample [] =
       ([Call_getJob ''456'', Call_GetRun ''123'', Call_getJobLog 456, Call_StartPager,
         Out_Copy (''fail'' @ [CHR 0x0A])],
        Some SilentError)"
    by (simp add: NewCmdView_def RunE_def flagOptions_def flagsJobLogExit_def Let_def
          runView_def andFinally_def resolve_def andThen_def fetchSelectedJob_def
          promptRun_def fetchRun_def promptJob_def viewJobLog_def
          worldExample_def world0_def run123_def job456_def Itoa_123)
  from a b c show ?thesis by (simp add: exitCode_def)
qed








text \<open>
  C9. An entry named \<open><job>/<n>_.txt\<close>, where \<open>n\<close> is a numeric token whose value fits
  the 64-bit \<open>int\<close> and the payload can be read, is accepted whatever the map holds
  before it. In the map after it the job has the steps it had before (none, for a job
  that was not in the map) and after them one more step, with the value of \<open>n\<close> as
  its order, the empty string as its name and the payload as its log; the job keeps
  its name (a new job gets the name of the directory); every other job is as it was,
  and the job is the one new key at most. At the end of an archive whose entries all
  pass, the entry adds no error, and the steps of each job are those of the entries
  before, followed under the job of the entry by the step with the empty name.
\<close>

theorem entry_with_empty_step_name:
  assumes "isNumeric n" and "fitsInt (tokenValue n)"
  shows "(\<exists>rl'. readRunLog_entry rl \<lparr>Name = job @ ''/'' @ n @ ''_.txt'', readZipFile = Inr logs\<rparr>
                  = Inr rl'
            \<and> map_of rl' job =
                Some \<lparr>job_name = (case map_of rl job of None \<Rightarrow> job | Some j \<Rightarrow> job_name j),
                      job_steps = stepsOf rl job @
                        [\<lparr>step_order = tokenValue n, step_name = [], step_logs = logs\<rparr>]\<rparr>
            \<and> (\<forall>other. other \<noteq> job \<longrightarrow> map_of rl' other = map_of rl other)
            \<and> fst ` set rl' = insert job (fst ` set rl))
       \<and> ((\<forall>z\<in>set pre. passes z) \<longrightarrow>
            snd (readRunLog (ZipArchive
                  (pre @ [\<lparr>Name = job @ ''/'' @ n @ ''_.txt'', readZipFile = Inr logs\<rparr>]))) = None
            \<and> (\<forall>name. stepsOf (fst (readRunLog (ZipArchive
                  (pre @ [\<lparr>Name = job @ ''/'' @ n @ ''_.txt'', readZipFile = Inr logs\<rparr>])))) name =
                 stepsIn pre name @
                 (if name = job
                  then [\<lparr>step_order = tokenValue n, step_name = [], step_logs = logs\<rparr>]
                  else [])))"
proof -
  let ?zf = "\<lparr>Name = job @ ''/'' @ n @ ''_.txt'', readZipFile = Inr logs\<rparr>"
  let ?st = "\<lparr>step_order = tokenValue n, step_name = [], step_logs = logs\<rparr>"
  note ns = empty_name_entry(1)[OF assms(1), of job "Inr logs"]
  note jb = empty_name_entry(3)[OF assms(1), of job "Inr logs"]
  note vn = empty_name_step(1)[OF assms, of job "Inr logs"]
  note so = empty_name_step(2)[OF assms, of job logs]
  have ps: "passes ?zf" using vn by (simp add: passes_def readable_def)
  obtain rl' where e: "readRunLog_entry rl ?zf = Inr rl'"
    using entry_passes[OF ps, of rl] by blast
  have r: "rl' = addStep rl job ?st"
    using entry_accepted[OF ns e] jb so by simp
  have a: "\<exists>rl'. readRunLog_entry rl ?zf = Inr rl'
            \<and> map_of rl' job =
                Some \<lparr>job_name = (case map_of rl job of None \<Rightarrow> job | Some j \<Rightarrow> job_name j),
                      job_steps = stepsOf rl job @ [?st]\<rparr>
            \<and> (\<forall>other. other \<noteq> job \<longrightarrow> map_of rl' other = map_of rl other)
            \<and> fst ` set rl' = insert job (fst ` set rl)"
    using e r map_of_addStep_same[of rl job ?st] map_of_addStep_other[of _ job rl ?st]
      keys_addStep[of rl job ?st]
    by simp
  have b: "snd (readRunLog (ZipArchive (pre @ [?zf]))) = None
      \<and> (\<forall>name. stepsOf (fst (readRunLog (ZipArchive (pre @ [?zf])))) name =
             stepsIn pre name @ (if name = job then [?st] else []))"
    if p: "\<forall>z\<in>set pre. passes z"
  proof -
    from p ps have q: "\<forall>z\<in>set (pre @ [?zf]). passes z" by simp
    have s: "stepsIn (pre @ [?zf]) name = stepsIn pre name @ (if name = job then [?st] else [])"
      for name
      using ns jb so by (simp add: stepsIn_def)
    show ?thesis
      using loop_passes[OF q, of "[]"] loop_passes_steps(1)[OF q, of "[]"] s
      by (simp add: stepsOf_def)
  qed
  from a b show ?thesis by blast
qed

theorem entry_with_empty_step_name_witness:
  "isNumeric ''2'' \<and> fitsInt (tokenValue ''2'') \<and> tokenValue ''2'' = 2
   \<and> isNumeric ''3'' \<and> fitsInt (tokenValue ''3'') \<and> tokenValue ''3'' = 3
   \<and> list_all passes [\<lparr>Name = ''alpha/1_build.txt'', readZipFile = Inr ''ok''\<rparr>,
                       \<lparr>Name = ''beta/1_build.txt'', readZipFile = Inr ''ok''\<rparr>]
   \<and> list_all passes [\<lparr>Name = ''alpha/1_build.txt'', readZipFile = Inr ''ok''\<rparr>,
                       \<lparr>Name = ''beta/1_build.txt'', readZipFile = Inr ''ok''\<rparr>,
                       \<lparr>Name = ''alpha/2_.txt'', readZipFile = Inr ''two''\<rparr>]
   \<and> stepsOf (fst (readRunLog (ZipArchive
         [\<lparr>Name = ''alpha/1_build.txt'', readZipFile = Inr ''ok''\<rparr>,
          \<lparr>Name = ''beta/1_build.txt'', readZipFile = Inr ''ok''\<rparr>,
          \<lparr>Name = ''alpha/2_.txt'', readZipFile = Inr ''two''\<rparr>]))) ''alpha'' =
       [\<lparr>step_order = 1, step_name = ''build'', step_logs = ''ok''\<rparr>,
        \<lparr>step_order = 2, step_name = [], step_logs = ''two''\<rparr>]
   \<and> stepsOf (fst (readRunLog (ZipArchive archiveEmptyNames))) ''gamma'' =
       [\<lparr>step_order = 3, step_name = [], step_logs = ''three''\<rparr>]
   \<and> readRunLog (ZipArchive archiveEmptyNames) =
       ([(''alpha'', \<lparr>job_name = ''alpha'',
            job_steps = [\<lparr>step_order = 1, step_name = ''build'', step_logs = ''ok''\<rparr>,
                         \<lparr>step_order = 2, step_name = [], step_logs = ''two''\<rparr>]\<rparr>),
         (''beta'', \<lparr>job_name = ''beta'',
            job_steps = [\<lparr>step_order = 1, step_name = ''build'', step_logs = ''ok''\<rparr>]\<rparr>),
         (''gamma'', \<lparr>job_name = ''gamma'',
            job_steps = [\<lparr>step_order = 3, step_name = [], step_logs = ''three''\<rparr>]\<rparr>)],
        None)"
proof -
  let ?a = "\<lparr>Name = ''alpha/1_build.txt'', readZipFile = Inr ''ok''\<rparr>"
  let ?b = "\<lparr>Name = ''beta/1_build.txt'', readZipFile = Inr ''ok''\<rparr>"
  let ?c = "\<lparr>Name = ''alpha/2_.txt'', readZipFile = Inr ''two''\<rparr>"
  have p2: "list_all passes [?a, ?b]"
    by (simp add: passes_def validName_def readable_def notSkipped_def baseName_def orderToken_def
        isNumeric_def isDigit_def tokenValue_def decimalValue_def fitsInt_def
        Split_def Ext_def IsPathSeparator_def TrimSuffix_def HasSuffix_def Let_def)
  have p3: "list_all passes [?a, ?b, ?c]"
    by (simp add: passes_def validName_def readable_def notSkipped_def baseName_def orderToken_def
        isNumeric_def isDigit_def tokenValue_def decimalValue_def fitsInt_def
        Split_def Ext_def IsPathSeparator_def TrimSuffix_def HasSuffix_def Let_def)
  have q2: "\<forall>z\<in>set [?a, ?b]. passes z" using p2 unfolding list_all_iff .
  have q3: "\<forall>z\<in>set [?a, ?b, ?c]. passes z" using p3 unfolding list_all_iff .
  have s2: "stepsIn [?a, ?b] ''alpha'' = [\<lparr>step_order = 1, step_name = ''build'', step_logs = ''ok''\<rparr>]"
    by (simp add: stepsIn_def stepOf_def jobOf_def notSkipped_def baseName_def orderToken_def
        tokenValue_def decimalValue_def
        Split_def Ext_def IsPathSeparator_def TrimSuffix_def HasSuffix_def Let_def)
  have s3: "stepsIn [?a, ?b, ?c] ''gamma'' = []"
    by (simp add: stepsIn_def stepOf_def jobOf_def notSkipped_def baseName_def orderToken_def
        tokenValue_def decimalValue_def
        Split_def Ext_def IsPathSeparator_def TrimSuffix_def HasSuffix_def Let_def)
  have n2: "isNumeric ''2''" "fitsInt (tokenValue ''2'')" "tokenValue ''2'' = 2"
    using numeric_2 by blast+
  have n3: "isNumeric ''3''" "fitsInt (tokenValue ''3'')" "tokenValue ''3'' = 3"
    using numeric_3 by blast+
  have a: "stepsOf (fst (readRunLog (ZipArchive [?a, ?b, ?c]))) ''alpha'' =
       [\<lparr>step_order = 1, step_name = ''build'', step_logs = ''ok''\<rparr>,
        \<lparr>step_order = 2, step_name = [], step_logs = ''two''\<rparr>]"
    using entry_with_empty_step_name [OF n2(1,2), of "[]" "''alpha''" "''two''" "[?a, ?b]"]
      q2 s2 n2(3)
    by simp
  have g: "stepsOf (fst (readRunLog (ZipArchive archiveEmptyNames))) ''gamma'' =
       [\<lparr>step_order = 3, step_name = [], step_logs = ''three''\<rparr>]"
    using entry_with_empty_step_name [OF n3(1,2), of "[]" "''gamma''" "''three''" "[?a, ?b, ?c]"]
      q3 s3 n3(3)
    by (simp add: archiveEmptyNames_def)
  from n2 n3 p2 p3 a g archiveEmptyNames_result show ?thesis by (simp only: simp_thms)
qed



end
